theory Spec2Isabelle
  imports Main "HOL-Library.Word"
begin

section \<open>Data model of src/index.ts (the version with campaigns, greeting and pipeline)\<close>

text \<open>
  A Node \<^verbatim>\<open>Buffer\<close> is a sequence of bytes; \<^verbatim>\<open>Buffer.concat\<close> is \<^const>\<open>concat\<close>.
\<close>

type_synonym buffer = "8 word list"

text \<open>
  Roles of a chat message. The history of a session only ever receives \<open>User\<close> and
  \<open>Assistant\<close> turns; \<open>System\<close> occurs in the messages sent to the conversational engine.
\<close>

datatype role = System | User | Assistant

text \<open>The three event interfaces of the source, with their nested objects flattened.\<close>

datatype TwilioStartEvent = TwilioStartEvent
  (start_accountSid: string) (start_callSid: string) (start_streamSid: string)
  (start_tracks: "string list")

datatype TwilioMediaEvent = TwilioMediaEvent
  (media_sequenceNumber: string) (media_track: string) (media_chunk: string)
  (media_payload: string) (media_streamSid: string)

datatype TwilioStopEvent = TwilioStopEvent
  (stop_accountSid: string) (stop_callSid: string) (stop_streamSid: string)

text \<open>
  What the handler can receive on the socket, by what \<^verbatim>\<open>JSON.parse\<close> and the
  \<^verbatim>\<open>switch (data.event)\<close> make of it:
  \<^item> \<open>Unparseable\<close>: the text is not JSON, \<^verbatim>\<open>JSON.parse\<close> throws;
  \<^item> \<open>JsonNull\<close>: the text is \<^verbatim>\<open>null\<close>, reading \<^verbatim>\<open>data.event\<close> throws;
  \<^item> \<open>Start\<close>, \<open>Media\<close>, \<open>Stop\<close>: a value of the matching interface;
  \<^item> \<open>Other ev\<close>: a parsed value that is not \<^verbatim>\<open>null\<close>; \<open>ev\<close> is its \<^verbatim>\<open>event\<close> field when that
    is a string. When \<open>ev\<close> names one of the three cases, the member of that name
    (\<^verbatim>\<open>data.start\<close>, \<^verbatim>\<open>data.media\<close>, \<^verbatim>\<open>data.stop\<close>) is absent or \<^verbatim>\<open>null\<close> in it, so that
    the first read of a field of that member throws.
  A value in which that member is present and is not of the shape of the interface (a
  number, a string, an object without the fields) is not represented: from it the code
  reads undefined fields without throwing, and goes on with them.
\<close>

datatype message =
    Unparseable
  | JsonNull
  | Start TwilioStartEvent
  | Media TwilioMediaEvent
  | Stop TwilioStopEvent
  | Other "string option"

record CallSession =
  callSid :: string
  streamSid :: string
  socket :: nat
  campaignPrompt :: string
  campaignVoiceId :: string
  isProcessing :: bool
  conversationHistory :: "(role \<times> string) list"
  audioBuffer :: "buffer list"

text \<open>The columns of a campaign row that the handler reads; both are nullable.\<close>

record campaign =
  campaign_prompt :: "string option"
  voice_id :: "string option"

datatype error =
    SyntaxError
  | TypeError
  | Failure string
  | TtsError nat string
  | GreetingTtsError nat string
  | SocketNotOpen

text \<open>One constructor for each \<^verbatim>\<open>console.log\<close> or \<^verbatim>\<open>console.error\<close> of the modelled code.\<close>

datatype log_entry =
    CallStarted string
  | CampaignFetchError error
  | UnknownStream string
  | CallEnded string
  | GreetingLog string
  | GreetingErrorLog error
  | WhisperLog string
  | GptLog string
  | PipelineErrorLog error

text \<open>Requests made to the external collaborators, in the order they are made.\<close>

datatype request =
    GetCampaignById string
  | ChatCompletion "(role \<times> string) list"
  | MulawToWav buffer
  | Transcription buffer
  | TextToSpeech string string
  | Mp3ToMulaw buffer

text \<open>Calls of the two asynchronous functions, by the address of the session passed.\<close>

datatype call = SendGreeting nat | ProcessAudioPipeline nat buffer

text \<open>The outbound media envelope: \<^verbatim>\<open>{event: 'media', streamSid, media: {payload}}\<close>.\<close>

datatype outbound = OutboundMedia (out_streamSid: string) (out_payload: string)

text \<open>
  An asynchronous function suspended at an \<^verbatim>\<open>await\<close> is a task: the function, the
  session it holds and the \<^verbatim>\<open>await\<close> it is suspended at.
\<close>

datatype pipeline_stage =
    AwaitWav
  | AwaitTranscription
  | AwaitGpt
  | AwaitTts
  | AwaitErrText nat
  | AwaitArrayBuffer
  | AwaitMulaw

datatype greeting_stage =
    GreetGpt
  | GreetTts
  | GreetErrText nat
  | GreetArrayBuffer
  | GreetMulaw

datatype task =
    StartTask nat TwilioStartEvent
  | GreetingTask nat greeting_stage
  | PipelineTask nat pipeline_stage

text \<open>What an \<^verbatim>\<open>await\<close> settles with: \<open>Inl\<close> is a rejection.\<close>

datatype response =
    CampaignRow "error + campaign option"
  | Chat "error + string option"
  | Bytes "error + buffer"
  | Text "error + string"
  | Http "error + bool \<times> nat"

text \<open>
  Library functions and configuration that the code uses and the repository does not
  define: the environment variable, the base64 codec of \<^verbatim>\<open>Buffer\<close>, and what
  \<^verbatim>\<open>send\<close> of the WebSocket library does on a socket that is closed: it throws, or it
  drops the message without a word (the library's versions differ).
\<close>

record env =
  ELEVENLABS_VOICE_ID :: "string option"
  fromBase64 :: "string \<Rightarrow> buffer"
  toBase64 :: "buffer \<Rightarrow> string"
  closedSendThrows :: bool

text \<open>
  The state of the process. Sessions are objects: \<open>heap\<close> maps an address to the
  object, \<open>nextAddr\<close> is the next fresh address, and \<open>activeCalls\<close> (the \<^verbatim>\<open>Map\<close> of
  the source) and the tasks hold addresses, so that a task keeps its session after a
  stop removed it from the map. \<open>sent\<close> is what was handed to each socket;
  \<open>closedSockets\<close> are the sockets that are closed; \<open>unhandled\<close> holds the rejection
  of the handler's promise that ended the process, if one did. \<open>logs\<close>, \<open>requests\<close> and
  \<open>calls\<close> are traces.
\<close>

record world =
  heap :: "nat \<Rightarrow> CallSession"
  nextAddr :: nat
  activeCalls :: "string \<rightharpoonup> nat"
  tasks :: "task list"
  closedSockets :: "nat list"
  sent :: "(nat \<times> outbound) list"
  logs :: "log_entry list"
  requests :: "request list"
  calls :: "call list"
  unhandled :: "error list"

definition log :: "log_entry \<Rightarrow> world \<Rightarrow> world" where
  "log e w = w\<lparr>logs := logs w @ [e]\<rparr>"

definition request :: "request \<Rightarrow> world \<Rightarrow> world" where
  "request r w = w\<lparr>requests := requests w @ [r]\<rparr>"

definition called :: "call \<Rightarrow> world \<Rightarrow> world" where
  "called c w = w\<lparr>calls := calls w @ [c]\<rparr>"

definition suspend :: "task \<Rightarrow> world \<Rightarrow> world" where
  "suspend t w = w\<lparr>tasks := tasks w @ [t]\<rparr>"

text \<open>
  The message handler is an \<^verbatim>\<open>async\<close> function that the socket calls and nothing awaits:
  a throw inside it is a rejection that nothing handles. The source installs no
  \<^verbatim>\<open>unhandledRejection\<close> listener, so the runtime raises it as an uncaught exception and
  the process exits with code 1. \<open>reject\<close> records the rejection; the event loop below runs
  no turn after it.
\<close>

definition reject :: "error \<Rightarrow> world \<Rightarrow> world" where
  "reject e w = w\<lparr>unhandled := unhandled w @ [e]\<rparr>"

definition upd :: "nat \<Rightarrow> (CallSession \<Rightarrow> CallSession) \<Rightarrow> world \<Rightarrow> world" where
  "upd a f w = w\<lparr>heap := (heap w)(a := f (heap w a))\<rparr>"

section \<open>Strings\<close>

text \<open>
  \<^verbatim>\<open>String.prototype.trim\<close> on the characters a \<^typ>\<open>char\<close> can hold (code units up to
  255): TAB, LF, VT, FF, CR, space and the no-break space are white space.
\<close>

definition js_whitespace :: "char \<Rightarrow> bool" where
  "js_whitespace c = (of_char c \<in> {9, 10, 11, 12, 13, 32, 160 :: nat})"

definition trim :: "string \<Rightarrow> string" where
  "trim s = rev (dropWhile js_whitespace (rev (dropWhile js_whitespace s)))"

text \<open>Truthiness of a value that is a string or undefined/null.\<close>

definition truthy :: "string option \<Rightarrow> bool" where
  "truthy v = (case v of None \<Rightarrow> False | Some s \<Rightarrow> s \<noteq> [])"

definition START_CALL :: string where
  "START_CALL = ''[START_CALL] La llamada acaba de conectar. Pres'' @ [char_of (233::nat)] @
     ''ntate brevemente y saluda al usuario.''"

section \<open>sendGreeting (lines 213-261)\<close>

text \<open>
  The call runs to the first \<^verbatim>\<open>await\<close>: the chat request with the system prompt and
  the synthetic user instruction.
\<close>

definition sendGreeting :: "env \<Rightarrow> nat \<Rightarrow> world \<Rightarrow> world" where
  "sendGreeting env a w =
     (let w1 = called (SendGreeting a) w;
          w2 = request (ChatCompletion
                 [(System, campaignPrompt (heap w1 a)), (User, START_CALL)]) w1
      in suspend (GreetingTask a GreetGpt) w2)"

text \<open>The \<^verbatim>\<open>catch\<close> block: the error is logged and the function returns normally.\<close>

definition greeting_catch :: "error \<Rightarrow> world \<Rightarrow> world" where
  "greeting_catch e w = log (GreetingErrorLog e) w"

text \<open>
  \<^verbatim>\<open>session.socket.send(JSON.stringify(...))\<close>: on a closed socket nothing is handed to
  the transport, and the call throws or returns, as the library does.
\<close>

definition socket_send :: "env \<Rightarrow> nat \<Rightarrow> outbound \<Rightarrow> world \<Rightarrow> error + world" where
  "socket_send env sock m w =
     (if sock \<in> set (closedSockets w) then
        (if closedSendThrows env then Inl SocketNotOpen else Inr w)
      else Inr (w\<lparr>sent := sent w @ [(sock, m)]\<rparr>))"

text \<open>
  The function from each \<^verbatim>\<open>await\<close> to the next, or to its end: two equations for each
  \<^verbatim>\<open>await\<close>, one for its rejection, which goes to the \<^verbatim>\<open>catch\<close> block, and one for its
  value. The greeting text is pushed on the history before the synthesis request is made.
  A value of another kind than the \<^verbatim>\<open>await\<close> expects is no settlement of it.
\<close>

fun sendGreeting_resume ::
  "env \<Rightarrow> nat \<Rightarrow> greeting_stage \<Rightarrow> response \<Rightarrow> world \<Rightarrow> world option" where
  "sendGreeting_resume env a GreetGpt (Chat (Inl e)) w = Some (greeting_catch e w)"
| "sendGreeting_resume env a GreetGpt (Chat (Inr content)) w = Some
     (let greetingText = (case content of Some c \<Rightarrow> c | None \<Rightarrow> ''Ciao, come posso aiutarti?'');
          w1 = upd a (\<lambda>s. s\<lparr>conversationHistory :=
                 conversationHistory s @ [(Assistant, greetingText)]\<rparr>) w;
          w2 = log (GreetingLog greetingText) w1;
          w3 = request (TextToSpeech (campaignVoiceId (heap w2 a)) greetingText) w2
      in suspend (GreetingTask a GreetTts) w3)"
| "sendGreeting_resume env a GreetTts (Http (Inl e)) w = Some (greeting_catch e w)"
| "sendGreeting_resume env a GreetTts (Http (Inr (ok, status))) w = Some
     (if \<not> ok then suspend (GreetingTask a (GreetErrText status)) w
      else suspend (GreetingTask a GreetArrayBuffer) w)"
| "sendGreeting_resume env a (GreetErrText status) (Text (Inl e)) w =
     Some (greeting_catch e w)"
| "sendGreeting_resume env a (GreetErrText status) (Text (Inr errText)) w =
     Some (greeting_catch (GreetingTtsError status errText) w)"
| "sendGreeting_resume env a GreetArrayBuffer (Bytes (Inl e)) w = Some (greeting_catch e w)"
| "sendGreeting_resume env a GreetArrayBuffer (Bytes (Inr mp3Buffer)) w =
     Some (suspend (GreetingTask a GreetMulaw) (request (Mp3ToMulaw mp3Buffer) w))"
| "sendGreeting_resume env a GreetMulaw (Bytes (Inl e)) w = Some (greeting_catch e w)"
| "sendGreeting_resume env a GreetMulaw (Bytes (Inr mulawAudio)) w = Some
     (case socket_send env (socket (heap w a))
             (OutboundMedia (streamSid (heap w a)) (toBase64 env mulawAudio)) w of
        Inl e \<Rightarrow> greeting_catch e w
      | Inr w1 \<Rightarrow> w1)"
| "sendGreeting_resume env a _ _ w = None"

section \<open>processAudioPipeline (lines 263-340)\<close>

text \<open>The \<^verbatim>\<open>finally\<close> block, and the \<^verbatim>\<open>catch\<close> block followed by it.\<close>

definition pipeline_finally :: "nat \<Rightarrow> world \<Rightarrow> world" where
  "pipeline_finally a w = upd a (\<lambda>s. s\<lparr>isProcessing := False\<rparr>) w"

definition pipeline_catch :: "nat \<Rightarrow> error \<Rightarrow> world \<Rightarrow> world" where
  "pipeline_catch a e w = pipeline_finally a (log (PipelineErrorLog e) w)"

text \<open>
  The call runs to the first \<^verbatim>\<open>await\<close>: it returns at once when the flag is set,
  otherwise it sets the flag and starts the conversion to WAV.
\<close>

definition processAudioPipeline :: "env \<Rightarrow> nat \<Rightarrow> buffer \<Rightarrow> world \<Rightarrow> world" where
  "processAudioPipeline env a audio w =
     (let w0 = called (ProcessAudioPipeline a audio) w in
      if isProcessing (heap w0 a) then w0
      else
        (let w1 = upd a (\<lambda>s. s\<lparr>isProcessing := True\<rparr>) w0;
             w2 = request (MulawToWav audio) w1
         in suspend (PipelineTask a AwaitWav) w2))"

text \<open>
  The function from each \<^verbatim>\<open>await\<close> to the next, or to its end, in the order of the
  source: WAV conversion, transcription (with the early return on a blank transcript),
  chat completion (the user turn is pushed before the request, the assistant turn when it
  settles), synthesis (a response that is not ok leads to reading its text and throwing),
  the body of the response, the conversion to mu-law and the send. Every end goes through
  the \<^verbatim>\<open>finally\<close> block.
\<close>

fun processAudioPipeline_resume ::
  "env \<Rightarrow> nat \<Rightarrow> pipeline_stage \<Rightarrow> response \<Rightarrow> world \<Rightarrow> world option" where
  "processAudioPipeline_resume env a AwaitWav (Bytes (Inl e)) w = Some (pipeline_catch a e w)"
| "processAudioPipeline_resume env a AwaitWav (Bytes (Inr wavBuffer)) w =
     Some (suspend (PipelineTask a AwaitTranscription) (request (Transcription wavBuffer) w))"
| "processAudioPipeline_resume env a AwaitTranscription (Text (Inl e)) w =
     Some (pipeline_catch a e w)"
| "processAudioPipeline_resume env a AwaitTranscription (Text (Inr text)) w = Some
     (let userText = trim text in
      if userText = [] then
        pipeline_finally a (upd a (\<lambda>s. s\<lparr>isProcessing := False\<rparr>) w)
      else
        (let w1 = log (WhisperLog userText) w;
             w2 = upd a (\<lambda>s. s\<lparr>conversationHistory :=
                    conversationHistory s @ [(User, userText)]\<rparr>) w1;
             w3 = request (ChatCompletion
                    ((System, campaignPrompt (heap w2 a)) # conversationHistory (heap w2 a))) w2
         in suspend (PipelineTask a AwaitGpt) w3))"
| "processAudioPipeline_resume env a AwaitGpt (Chat (Inl e)) w = Some (pipeline_catch a e w)"
| "processAudioPipeline_resume env a AwaitGpt (Chat (Inr content)) w = Some
     (let assistantText = (case content of Some c \<Rightarrow> c | None \<Rightarrow> []);
          w1 = upd a (\<lambda>s. s\<lparr>conversationHistory :=
                 conversationHistory s @ [(Assistant, assistantText)]\<rparr>) w;
          w2 = log (GptLog assistantText) w1;
          w3 = request (TextToSpeech (campaignVoiceId (heap w2 a)) assistantText) w2
      in suspend (PipelineTask a AwaitTts) w3)"
| "processAudioPipeline_resume env a AwaitTts (Http (Inl e)) w = Some (pipeline_catch a e w)"
| "processAudioPipeline_resume env a AwaitTts (Http (Inr (ok, status))) w = Some
     (if \<not> ok then suspend (PipelineTask a (AwaitErrText status)) w
      else suspend (PipelineTask a AwaitArrayBuffer) w)"
| "processAudioPipeline_resume env a (AwaitErrText status) (Text (Inl e)) w =
     Some (pipeline_catch a e w)"
| "processAudioPipeline_resume env a (AwaitErrText status) (Text (Inr errText)) w =
     Some (pipeline_catch a (TtsError status errText) w)"
| "processAudioPipeline_resume env a AwaitArrayBuffer (Bytes (Inl e)) w =
     Some (pipeline_catch a e w)"
| "processAudioPipeline_resume env a AwaitArrayBuffer (Bytes (Inr mp3Buffer)) w =
     Some (suspend (PipelineTask a AwaitMulaw) (request (Mp3ToMulaw mp3Buffer) w))"
| "processAudioPipeline_resume env a AwaitMulaw (Bytes (Inl e)) w = Some (pipeline_catch a e w)"
| "processAudioPipeline_resume env a AwaitMulaw (Bytes (Inr mulawAudio)) w = Some
     (case socket_send env (socket (heap w a))
             (OutboundMedia (streamSid (heap w a)) (toBase64 env mulawAudio)) w of
        Inl e \<Rightarrow> pipeline_catch a e w
      | Inr w1 \<Rightarrow> pipeline_finally a w1)"
| "processAudioPipeline_resume env a _ _ w = None"

text \<open>The rejection of the \<^verbatim>\<open>await\<close> of each stage, as the response that settles it.\<close>

fun rejected :: "pipeline_stage \<Rightarrow> error \<Rightarrow> response" where
  "rejected AwaitWav e = Bytes (Inl e)"
| "rejected AwaitTranscription e = Text (Inl e)"
| "rejected AwaitGpt e = Chat (Inl e)"
| "rejected AwaitTts e = Http (Inl e)"
| "rejected (AwaitErrText status) e = Text (Inl e)"
| "rejected AwaitArrayBuffer e = Bytes (Inl e)"
| "rejected AwaitMulaw e = Bytes (Inl e)"

section \<open>The message handler of /media-stream (lines 776-846)\<close>

definition defaultPrompt :: string where
  "defaultPrompt = ''You are a helpful assistant.''"

definition defaultVoiceId :: "env \<Rightarrow> string" where
  "defaultVoiceId env = (if truthy (ELEVENLABS_VOICE_ID env) then the (ELEVENLABS_VOICE_ID env) else [])"

text \<open>
  Lines 800-812: the new session object is allocated, stored under its stream
  identifier (replacing what was there) and greeted.
\<close>

definition start_session ::
  "env \<Rightarrow> nat \<Rightarrow> TwilioStartEvent \<Rightarrow> string \<Rightarrow> string \<Rightarrow> world \<Rightarrow> world" where
  "start_session env sock startData prompt voice w =
     (let newSession = \<lparr>callSid = start_callSid startData,
                         streamSid = start_streamSid startData,
                         socket = sock,
                         campaignPrompt = prompt,
                         campaignVoiceId = voice,
                         isProcessing = False,
                         conversationHistory = [],
                         audioBuffer = []\<rparr>;
          a = nextAddr w;
          w1 = w\<lparr>heap := (heap w)(a := newSession), nextAddr := Suc a\<rparr>;
          w2 = w1\<lparr>activeCalls := (activeCalls w1)(start_streamSid startData \<mapsto> a)\<rparr>
      in sendGreeting env a w2)"

text \<open>
  The start case up to its \<^verbatim>\<open>await\<close>: with a truthy \<^verbatim>\<open>campaignId\<close> query parameter
  the handler suspends on the campaign lookup, otherwise it goes on with the defaults.
\<close>

definition on_start ::
  "env \<Rightarrow> nat \<Rightarrow> string option \<Rightarrow> TwilioStartEvent \<Rightarrow> world \<Rightarrow> world" where
  "on_start env sock campaignIdParam startData w =
     (let w1 = log (CallStarted (start_callSid startData)) w in
      if truthy campaignIdParam then
        suspend (StartTask sock startData) (request (GetCampaignById (the campaignIdParam)) w1)
      else start_session env sock startData defaultPrompt (defaultVoiceId env) w1)"

text \<open>The start case after the lookup settled (lines 792-812).\<close>

definition on_start_resume ::
  "env \<Rightarrow> nat \<Rightarrow> TwilioStartEvent \<Rightarrow> error + campaign option \<Rightarrow> world \<Rightarrow> world" where
  "on_start_resume env sock startData r w =
     (case r of
        Inl e \<Rightarrow>
          start_session env sock startData defaultPrompt (defaultVoiceId env)
            (log (CampaignFetchError e) w)
      | Inr row \<Rightarrow>
          (let prompt = (case row of
                           None \<Rightarrow> defaultPrompt
                         | Some c \<Rightarrow> if truthy (campaign_prompt c) then the (campaign_prompt c)
                                     else defaultPrompt);
               voice = (case row of
                          None \<Rightarrow> defaultVoiceId env
                        | Some c \<Rightarrow> if truthy (voice_id c) then the (voice_id c)
                                    else defaultVoiceId env)
           in start_session env sock startData prompt voice w))"

text \<open>
  The media case (lines 815-837): frames of another track than inbound are ignored, frames
  of an unknown stream are logged, the others are pushed on the buffer of the session,
  and the push that makes the buffer 150 frames long concatenates it, empties it and calls
  the pipeline without awaiting it.
\<close>

definition on_media :: "env \<Rightarrow> TwilioMediaEvent \<Rightarrow> world \<Rightarrow> world" where
  "on_media env mediaData w =
     (if media_track mediaData \<noteq> ''inbound'' then w
      else
        (case activeCalls w (media_streamSid mediaData) of
           None \<Rightarrow> log (UnknownStream (media_streamSid mediaData)) w
         | Some a \<Rightarrow>
             (let audioChunk = fromBase64 env (media_payload mediaData);
                  w1 = upd a (\<lambda>s. s\<lparr>audioBuffer := audioBuffer s @ [audioChunk]\<rparr>) w
              in if length (audioBuffer (heap w1 a)) \<ge> 150 then
                   (let combinedAudio = concat (audioBuffer (heap w1 a));
                        w2 = upd a (\<lambda>s. s\<lparr>audioBuffer := []\<rparr>) w1
                    in processAudioPipeline env a combinedAudio w2)
                 else w1)))"

text \<open>The stop case (lines 839-844).\<close>

definition on_stop :: "TwilioStopEvent \<Rightarrow> world \<Rightarrow> world" where
  "on_stop stopData w =
     (let w1 = log (CallEnded (stop_callSid stopData)) w
      in w1\<lparr>activeCalls := (activeCalls w1)(stop_streamSid stopData := None)\<rparr>)"

text \<open>
  The handler. A throw inside the \<^verbatim>\<open>async\<close> function rejects its promise: the
  \<^verbatim>\<open>JSON.parse\<close> of text that is not JSON (line 777, outside any \<^verbatim>\<open>try\<close>), the read of
  \<^verbatim>\<open>data.event\<close> on \<^verbatim>\<open>null\<close>, and, for a value whose event names one of the three
  cases and whose member of that name is absent or \<^verbatim>\<open>null\<close>, the first read of a field of
  that member, which comes before any other effect of the case. A value whose event
  names none of the three cases matches no case label: the switch has no default case,
  and the handler returns without any effect.
\<close>

definition on_message ::
  "env \<Rightarrow> nat \<Rightarrow> string option \<Rightarrow> message \<Rightarrow> world \<Rightarrow> world" where
  "on_message env sock campaignIdParam m w =
     (case m of
        Unparseable \<Rightarrow> reject SyntaxError w
      | JsonNull \<Rightarrow> reject TypeError w
      | Start startData \<Rightarrow> on_start env sock campaignIdParam startData w
      | Media mediaData \<Rightarrow> on_media env mediaData w
      | Stop stopData \<Rightarrow> on_stop stopData w
      | Other ev \<Rightarrow>
          if ev = Some ''start'' \<or> ev = Some ''media'' \<or> ev = Some ''stop''
          then reject TypeError w
          else w)"

section \<open>The event loop\<close>

text \<open>
  One turn of the event loop: a message arrives on a socket (with the query parameter of
  that connection), a pending \<^verbatim>\<open>await\<close> settles and its function runs to its next
  \<^verbatim>\<open>await\<close> or to its end, or a socket closes. A settlement that names no pending
  task, or whose value is not of the kind the task awaits, is not a turn of the loop and
  leaves the state as it is.

  A turn is fatal when it leaves a rejection that nothing handles: the process exits, and
  no later turn runs. \<open>exec\<close> runs the turns of a list in order, up to and including the
  first fatal one.
\<close>

datatype label =
    Message nat "string option" message
  | Settle task response
  | Close nat

fun resume :: "env \<Rightarrow> task \<Rightarrow> response \<Rightarrow> world \<Rightarrow> world option" where
  "resume env (StartTask sock startData) (CampaignRow r) w =
     Some (on_start_resume env sock startData r w)"
| "resume env (StartTask sock startData) _ w = None"
| "resume env (GreetingTask a st) r w = sendGreeting_resume env a st r w"
| "resume env (PipelineTask a st) r w = processAudioPipeline_resume env a st r w"

definition settle :: "env \<Rightarrow> task \<Rightarrow> response \<Rightarrow> world \<Rightarrow> world" where
  "settle env t r w =
     (if t \<in> set (tasks w) then
        (case resume env t r (w\<lparr>tasks := remove1 t (tasks w)\<rparr>) of
           Some w' \<Rightarrow> w'
         | None \<Rightarrow> w)
      else w)"

fun step :: "env \<Rightarrow> label \<Rightarrow> world \<Rightarrow> world" where
  "step env (Message sock campaignIdParam m) w = on_message env sock campaignIdParam m w"
| "step env (Settle t r) w = settle env t r w"
| "step env (Close sock) w = w\<lparr>closedSockets := sock # closedSockets w\<rparr>"

definition fatal :: "env \<Rightarrow> label \<Rightarrow> world \<Rightarrow> bool" where
  "fatal env l w = (unhandled (step env l w) \<noteq> unhandled w)"

fun exec :: "env \<Rightarrow> label list \<Rightarrow> world \<Rightarrow> world" where
  "exec env [] w = w"
| "exec env (l # ls) w =
     (if fatal env l w then step env l w else exec env ls (step env l w))"

text \<open>The state at start-up: no session, no task, nothing sent or logged.\<close>

definition emptySession :: CallSession where
  "emptySession = \<lparr>callSid = [], streamSid = [], socket = 0, campaignPrompt = [],
     campaignVoiceId = [], isProcessing = False, conversationHistory = [], audioBuffer = []\<rparr>"

definition world0 :: world where
  "world0 = \<lparr>heap = (\<lambda>_. emptySession), nextAddr = 0, activeCalls = Map.empty, tasks = [],
     closedSockets = [], sent = [], logs = [], requests = [], calls = [], unhandled = []\<rparr>"

section \<open>The busy guard as an invariant\<close>

text \<open>
  The runs of the pipeline that are in flight on a session are the pipeline tasks that
  hold its address.
\<close>

fun run_of :: "nat \<Rightarrow> task \<Rightarrow> bool" where
  "run_of a (PipelineTask b st) = (a = b)"
| "run_of a _ = False"

definition active_runs :: "world \<Rightarrow> nat \<Rightarrow> nat" where
  "active_runs w a = length (filter (run_of a) (tasks w))"

fun task_session :: "task \<Rightarrow> nat option" where
  "task_session (StartTask sock sd) = None"
| "task_session (GreetingTask a st) = Some a"
| "task_session (PipelineTask a st) = Some a"

definition allocated :: "world \<Rightarrow> bool" where
  "allocated w =
     ((\<forall>t \<in> set (tasks w). \<forall>a. task_session t = Some a \<longrightarrow> a < nextAddr w) \<and>
      (\<forall>a \<in> ran (activeCalls w). a < nextAddr w))"

definition guard_inv :: "world \<Rightarrow> bool" where
  "guard_inv w = (\<forall>a < nextAddr w. active_runs w a = (if isProcessing (heap w a) then 1 else 0))"

text \<open>The invariant of the event loop that the guard rests on.\<close>

definition consistent :: "world \<Rightarrow> bool" where
  "consistent w = (allocated w \<and> guard_inv w)"

section \<open>Concrete inputs\<close>

text \<open>
  An environment with a stand-in codec, and a start event, for evaluating the model on
  concrete inputs.
\<close>

definition testEnv :: env where
  "testEnv = \<lparr>ELEVENLABS_VOICE_ID = Some ''voice-1'',
     fromBase64 = map (\<lambda>c. of_nat (of_char c)),
     toBase64 = map (\<lambda>b. char_of (unat b)),
     closedSendThrows = True\<rparr>"

definition startS1 :: TwilioStartEvent where
  "startS1 = TwilioStartEvent ''AC1'' ''C1'' ''S1'' [''inbound'']"

text \<open>The session that the start event creates, the state after it, and that state with
  the socket closed.\<close>

definition sessionS1 :: CallSession where
  "sessionS1 = \<lparr>callSid = ''C1'', streamSid = ''S1'', socket = 0,
     campaignPrompt = defaultPrompt, campaignVoiceId = ''voice-1'', isProcessing = False,
     conversationHistory = [], audioBuffer = []\<rparr>"

definition afterStart :: world where
  "afterStart = exec testEnv [Message 0 None (Start startS1)] world0"

definition closedStart :: world where
  "closedStart = exec testEnv [Message 0 None (Start startS1), Close 0] world0"

text \<open>The state after the start event in which a run awaits its transcription.\<close>

definition transcribingS1 :: world where
  "transcribingS1 = settle testEnv (PipelineTask 0 AwaitWav) (Bytes (Inr [3]))
     (processAudioPipeline testEnv 0 [1, 2] afterStart)"

text \<open>A second start event on the stream of the first.\<close>

definition startS1again :: TwilioStartEvent where
  "startS1again = TwilioStartEvent ''AC1'' ''C2'' ''S1'' [''inbound'']"

section \<open>Classes of messages\<close>

text \<open>
  The messages of an unknown event type: parsed values whose event field names none of
  the three cases, or is missing.
\<close>

fun unknown_event :: "label \<Rightarrow> bool" where
  "unknown_event (Message sock q (Other ev)) =
     (ev \<noteq> Some ''start'' \<and> ev \<noteq> Some ''media'' \<and> ev \<noteq> Some ''stop'')"
| "unknown_event _ = False"

text \<open>
  A media frame on the stream of the first start event, the system's own audio looped
  back on it, a frame on a stream that was never started, and the stop event.
\<close>

definition frameS1 :: TwilioMediaEvent where
  "frameS1 = TwilioMediaEvent ''1'' ''inbound'' ''1'' ''AAAA'' ''S1''"

definition echoS1 :: TwilioMediaEvent where
  "echoS1 = TwilioMediaEvent ''2'' ''outbound'' ''2'' ''BBBB'' ''S1''"

definition frameS9 :: TwilioMediaEvent where
  "frameS9 = TwilioMediaEvent ''1'' ''inbound'' ''1'' ''AAAA'' ''S9''"

definition stopS1 :: TwilioStopEvent where
  "stopS1 = TwilioStopEvent ''AC1'' ''C1'' ''S1''"

text \<open>
  The state after the start event and 149 inbound frames, and after one frame more.
\<close>

definition bufferedS1 :: world where
  "bufferedS1 = exec testEnv
     (Message 0 None (Start startS1) # replicate 149 (Message 0 None (Media frameS1))) world0"

definition flushedS1 :: world where
  "flushedS1 = exec testEnv
     (Message 0 None (Start startS1) # replicate 150 (Message 0 None (Media frameS1))) world0"

text \<open>The state after that in which the run that the 150th frame started awaits its
  transcription.\<close>

definition heardS1 :: world where
  "heardS1 = exec testEnv
     (Message 0 None (Start startS1) # replicate 150 (Message 0 None (Media frameS1)) @
      [Settle (PipelineTask 0 AwaitWav) (Bytes (Inr [3]))]) world0"

section \<open>The registry and the buffers as invariants\<close>

text \<open>
  Every entry of the registry is a session whose stream identifier is its key; an
  address is unregistered when it is allocated and no key leads to it.
\<close>

definition keyed :: "world \<Rightarrow> bool" where
  "keyed w = (\<forall>sid a. activeCalls w sid = Some a \<longrightarrow> streamSid (heap w a) = sid)"

definition unregistered :: "world \<Rightarrow> nat \<Rightarrow> bool" where
  "unregistered w a = (a < nextAddr w \<and> (\<forall>sid. activeCalls w sid \<noteq> Some a))"

text \<open>What a turn of the loop can do to the registry.\<close>

definition registry_step :: "world \<Rightarrow> world \<Rightarrow> bool" where
  "registry_step w w' =
     (nextAddr w \<le> nextAddr w' \<and>
      (\<forall>sid b. activeCalls w' sid = Some b \<longrightarrow>
         (activeCalls w sid = Some b \<and> streamSid (heap w' b) = streamSid (heap w b)) \<or>
         (b = nextAddr w \<and> b < nextAddr w' \<and> streamSid (heap w' b) = sid)))"

text \<open>
  No buffer ever holds 150 frames between two turns of the loop.
\<close>

definition bounded_buffers :: "world \<Rightarrow> bool" where
  "bounded_buffers w = (\<forall>b. length (audioBuffer (heap w b)) < 150)"

text \<open>
  A session with some chunks appended to its buffer.
\<close>

definition buffered :: "nat \<Rightarrow> buffer list \<Rightarrow> world \<Rightarrow> world" where
  "buffered a chunks w = upd a (\<lambda>s. s\<lparr>audioBuffer := audioBuffer s @ chunks\<rparr>) w"

section \<open>Sequences of turns on one stream\<close>

text \<open>
  The turns that can come between the start and the stop of a stream without touching
  its registry entry: media events on the stream, settled awaits of greetings and pipeline
  runs, and sockets closing. The inbound frames among them, and the calls of the pipeline
  in the trace of calls.
\<close>

fun media_turn :: "string \<Rightarrow> label \<Rightarrow> bool" where
  "media_turn sid (Message sock q (Media md)) = (media_streamSid md = sid)"
| "media_turn sid (Message sock q m) = False"
| "media_turn sid (Settle (StartTask sock sd) r) = False"
| "media_turn sid (Settle t r) = True"
| "media_turn sid (Close sock) = True"

fun inbound_frame :: "label \<Rightarrow> bool" where
  "inbound_frame (Message sock q (Media md)) = (media_track md = ''inbound'')"
| "inbound_frame l = False"

fun is_pipeline_call :: "call \<Rightarrow> bool" where
  "is_pipeline_call (ProcessAudioPipeline a audio) = True"
| "is_pipeline_call c = False"

definition pipeline_calls :: "world \<Rightarrow> nat" where
  "pipeline_calls w = length (filter is_pipeline_call (calls w))"

section \<open>Effects of the operations on the fields of the state\<close>

lemmas world_defs = log_def request_def called_def suspend_def reject_def upd_def
  greeting_catch_def pipeline_finally_def pipeline_catch_def socket_send_def

lemma pipeline_resume_shape:
  assumes "processAudioPipeline_resume env a st r w = Some w'"
  shows "nextAddr w' = nextAddr w \<and> activeCalls w' = activeCalls w \<and>
         (\<forall>b. audioBuffer (heap w' b) = audioBuffer (heap w b)) \<and>
         ((\<exists>st'. tasks w' = tasks w @ [PipelineTask a st'] \<and>
                 (\<forall>b. isProcessing (heap w' b) = isProcessing (heap w b))) \<or>
          (tasks w' = tasks w \<and> \<not> isProcessing (heap w' a) \<and>
           (\<forall>b. b \<noteq> a \<longrightarrow> isProcessing (heap w' b) = isProcessing (heap w b))))"
  using assms
  by (cases "(env, a, st, r, w)" rule: processAudioPipeline_resume.cases)
     (auto simp: world_defs Let_def split: if_splits)

lemma greeting_resume_shape:
  assumes "sendGreeting_resume env a st r w = Some w'"
  shows "nextAddr w' = nextAddr w \<and> activeCalls w' = activeCalls w \<and>
         (\<forall>b. audioBuffer (heap w' b) = audioBuffer (heap w b)) \<and>
         (\<forall>b. isProcessing (heap w' b) = isProcessing (heap w b)) \<and>
         ((\<exists>st'. tasks w' = tasks w @ [GreetingTask a st']) \<or> tasks w' = tasks w)"
  using assms
  by (cases "(env, a, st, r, w)" rule: sendGreeting_resume.cases)
     (auto simp: world_defs Let_def split: if_splits)

lemma start_session_shape:
  "nextAddr (start_session env sock sd p v w) = Suc (nextAddr w) \<and>
   activeCalls (start_session env sock sd p v w) = (activeCalls w)(start_streamSid sd \<mapsto> nextAddr w) \<and>
   tasks (start_session env sock sd p v w) = tasks w @ [GreetingTask (nextAddr w) GreetGpt] \<and>
   \<not> isProcessing (heap (start_session env sock sd p v w) (nextAddr w)) \<and>
   audioBuffer (heap (start_session env sock sd p v w) (nextAddr w)) = [] \<and>
   (\<forall>b. b \<noteq> nextAddr w \<longrightarrow> heap (start_session env sock sd p v w) b = heap w b)"
  by (simp add: start_session_def sendGreeting_def world_defs Let_def)

lemma in_remove1D: "t \<in> set (remove1 x xs) \<Longrightarrow> t \<in> set xs"
  by (metis notin_set_remove1)

lemma filter_remove1_other: "\<not> P x \<Longrightarrow> filter P (remove1 x xs) = filter P xs"
  by (induction xs) auto

lemma on_media_shape:
  "nextAddr (on_media env md w) = nextAddr w \<and> activeCalls (on_media env md w) = activeCalls w \<and>
   ((tasks (on_media env md w) = tasks w \<and>
     (\<forall>b. isProcessing (heap (on_media env md w) b) = isProcessing (heap w b))) \<or>
    (\<exists>a. activeCalls w (media_streamSid md) = Some a \<and> \<not> isProcessing (heap w a) \<and>
         tasks (on_media env md w) = tasks w @ [PipelineTask a AwaitWav] \<and>
         isProcessing (heap (on_media env md w) a) \<and>
         (\<forall>b. b \<noteq> a \<longrightarrow> isProcessing (heap (on_media env md w) b) = isProcessing (heap w b))))"
  by (auto simp: on_media_def processAudioPipeline_def world_defs Let_def split: option.splits)

lemma length_filter_pos: "x \<in> set xs \<Longrightarrow> P x \<Longrightarrow> 0 < length (filter P xs)"
  by (induction xs) auto

lemma length_filter_remove1:
  "x \<in> set xs \<Longrightarrow>
   length (filter P (remove1 x xs)) = length (filter P xs) - (if P x then 1 else 0)"
proof (induction xs)
  case Nil
  then show ?case by simp
next
  case (Cons y ys)
  show ?case
  proof (cases "x = y")
    case True
    then show ?thesis by simp
  next
    case False
    with Cons.prems have mem: "x \<in> set ys" by simp
    have pos: "P x \<Longrightarrow> 0 < length (filter P ys)"
      using mem by (rule length_filter_pos)
    show ?thesis using False Cons.IH [OF mem] pos by auto
  qed
qed

lemma guard_invD:
  "guard_inv w \<Longrightarrow> a < nextAddr w \<Longrightarrow>
   length (filter (run_of a) (tasks w)) = (if isProcessing (heap w a) then 1 else 0)"
  by (simp add: guard_inv_def active_runs_def)

lemma guard_invI:
  "(\<And>a. a < nextAddr w \<Longrightarrow>
      length (filter (run_of a) (tasks w)) = (if isProcessing (heap w a) then 1 else 0)) \<Longrightarrow>
   guard_inv w"
  by (simp add: guard_inv_def active_runs_def)

lemma allocatedI:
  "(\<And>t a. t \<in> set (tasks w) \<Longrightarrow> task_session t = Some a \<Longrightarrow> a < nextAddr w) \<Longrightarrow>
   (\<And>sid a. activeCalls w sid = Some a \<Longrightarrow> a < nextAddr w) \<Longrightarrow> allocated w"
  by (auto simp: allocated_def ran_def)

lemma allocated_task:
  "allocated w \<Longrightarrow> t \<in> set (tasks w) \<Longrightarrow> task_session t = Some a \<Longrightarrow> a < nextAddr w"
  by (auto simp: allocated_def)

lemma allocated_call: "allocated w \<Longrightarrow> activeCalls w sid = Some a \<Longrightarrow> a < nextAddr w"
  by (auto simp: allocated_def ran_def)

text \<open>A turn that starts no run and ends none.\<close>

lemma inv_keep:
  assumes "consistent w" and "nextAddr w' = nextAddr w"
    and calls: "\<And>sid a. activeCalls w' sid = Some a \<Longrightarrow> \<exists>sid'. activeCalls w sid' = Some a"
    and tasks: "\<And>t a. t \<in> set (tasks w') \<Longrightarrow> task_session t = Some a \<Longrightarrow>
                 \<exists>t' \<in> set (tasks w). task_session t' = Some a"
    and runs: "\<And>a. filter (run_of a) (tasks w') = filter (run_of a) (tasks w)"
    and busy: "\<And>b. isProcessing (heap w' b) = isProcessing (heap w b)"
  shows "consistent w'"
proof -
  from \<open>consistent w\<close> have al: "allocated w" and g: "guard_inv w" by (simp_all add: consistent_def)
  have "allocated w'"
  proof (rule allocatedI)
    fix t a assume "t \<in> set (tasks w')" "task_session t = Some a"
    with tasks [of t a] obtain t' where "t' \<in> set (tasks w)" "task_session t' = Some a" by auto
    then show "a < nextAddr w'" using allocated_task [OF al] assms(2) by simp
  next
    fix sid a assume "activeCalls w' sid = Some a"
    with calls obtain sid' where "activeCalls w sid' = Some a" by blast
    then show "a < nextAddr w'" using allocated_call [OF al] assms(2) by simp
  qed
  moreover have "guard_inv w'"
  proof (rule guard_invI)
    fix a assume "a < nextAddr w'"
    then show "length (filter (run_of a) (tasks w')) = (if isProcessing (heap w' a) then 1 else 0)"
      using guard_invD [OF g, of a] assms(2) runs busy by simp
  qed
  ultimately show ?thesis by (simp add: consistent_def)
qed

text \<open>A turn that starts a run on an idle session.\<close>

lemma inv_start_run:
  assumes "consistent w" and "nextAddr w' = nextAddr w" and "activeCalls w' = activeCalls w"
    and a: "a < nextAddr w" "\<not> isProcessing (heap w a)"
    and tasks: "tasks w' = tasks w @ [PipelineTask a st]"
    and busy: "isProcessing (heap w' a)"
      "\<And>b. b \<noteq> a \<Longrightarrow> isProcessing (heap w' b) = isProcessing (heap w b)"
  shows "consistent w'"
proof -
  from \<open>consistent w\<close> have al: "allocated w" and g: "guard_inv w" by (simp_all add: consistent_def)
  have "allocated w'"
  proof (rule allocatedI)
    fix t b assume "t \<in> set (tasks w')" "task_session t = Some b"
    then show "b < nextAddr w'" using allocated_task [OF al, of t b] a assms(2) tasks by auto
  next
    fix sid b assume "activeCalls w' sid = Some b"
    then show "b < nextAddr w'" using allocated_call [OF al, of sid b] assms(2,3) by simp
  qed
  moreover have "guard_inv w'"
  proof (rule guard_invI)
    fix b assume "b < nextAddr w'"
    then show "length (filter (run_of b) (tasks w')) = (if isProcessing (heap w' b) then 1 else 0)"
      using guard_invD [OF g, of b] assms(2) tasks busy a by (cases "b = a") auto
  qed
  ultimately show ?thesis by (simp add: consistent_def)
qed

text \<open>A turn in which the run of a session goes on to its next await, or ends.\<close>

lemma inv_run_goes_on:
  assumes "consistent w" and t: "PipelineTask a st \<in> set (tasks w)"
    and "nextAddr w' = nextAddr w" and "activeCalls w' = activeCalls w"
    and tasks: "tasks w' = remove1 (PipelineTask a st) (tasks w) @ [PipelineTask a st']"
    and busy: "\<And>b. isProcessing (heap w' b) = isProcessing (heap w b)"
  shows "consistent w'"
proof -
  from \<open>consistent w\<close> have al: "allocated w" and g: "guard_inv w" by (simp_all add: consistent_def)
  have a: "a < nextAddr w" using allocated_task [OF al t] by simp
  have "allocated w'"
  proof (rule allocatedI)
    fix t' b assume "t' \<in> set (tasks w')" "task_session t' = Some b"
    then show "b < nextAddr w'"
      using allocated_task [OF al, of t' b] a assms(3) tasks by (auto dest: notin_set_remove1)
  next
    fix sid b assume "activeCalls w' sid = Some b"
    then show "b < nextAddr w'" using allocated_call [OF al, of sid b] assms(3,4) by simp
  qed
  moreover have "guard_inv w'"
  proof (rule guard_invI)
    fix b assume "b < nextAddr w'"
    then show "length (filter (run_of b) (tasks w')) = (if isProcessing (heap w' b) then 1 else 0)"
      using guard_invD [OF g, of b] assms(3) tasks busy
        length_filter_remove1 [OF t, of "run_of b"] length_filter_pos [OF t, of "run_of b"]
      by (cases "b = a") (auto split: if_splits)
  qed
  ultimately show ?thesis by (simp add: consistent_def)
qed

lemma inv_run_ends:
  assumes "consistent w" and t: "PipelineTask a st \<in> set (tasks w)"
    and "nextAddr w' = nextAddr w" and "activeCalls w' = activeCalls w"
    and tasks: "tasks w' = remove1 (PipelineTask a st) (tasks w)"
    and busy: "\<not> isProcessing (heap w' a)"
      "\<And>b. b \<noteq> a \<Longrightarrow> isProcessing (heap w' b) = isProcessing (heap w b)"
  shows "consistent w'"
proof -
  from \<open>consistent w\<close> have al: "allocated w" and g: "guard_inv w" by (simp_all add: consistent_def)
  have a: "a < nextAddr w" using allocated_task [OF al t] by simp
  have "allocated w'"
  proof (rule allocatedI)
    fix t' b assume "t' \<in> set (tasks w')" "task_session t' = Some b"
    then show "b < nextAddr w'"
      using allocated_task [OF al, of t' b] assms(3) tasks by (auto dest: notin_set_remove1)
  next
    fix sid b assume "activeCalls w' sid = Some b"
    then show "b < nextAddr w'" using allocated_call [OF al, of sid b] assms(3,4) by simp
  qed
  moreover have "guard_inv w'"
  proof (rule guard_invI)
    fix b assume "b < nextAddr w'"
    then show "length (filter (run_of b) (tasks w')) = (if isProcessing (heap w' b) then 1 else 0)"
      using guard_invD [OF g, of b] assms(3) tasks busy a
        length_filter_remove1 [OF t, of "run_of b"] length_filter_pos [OF t, of "run_of b"]
      by (cases "b = a") (auto split: if_splits)
  qed
  ultimately show ?thesis by (simp add: consistent_def)
qed

text \<open>A turn that allocates a session and greets it.\<close>

lemma inv_alloc:
  assumes "consistent w" and "nextAddr w' = Suc (nextAddr w)"
    and calls: "activeCalls w' = (activeCalls w)(sid \<mapsto> nextAddr w)"
    and tasks: "set (tasks w') \<subseteq> insert (GreetingTask (nextAddr w) gst) (set (tasks w))"
    and runs: "\<And>a. filter (run_of a) (tasks w') = filter (run_of a) (tasks w)"
    and busy: "\<not> isProcessing (heap w' (nextAddr w))"
      "\<And>b. b \<noteq> nextAddr w \<Longrightarrow> isProcessing (heap w' b) = isProcessing (heap w b)"
  shows "consistent w'"
proof -
  from \<open>consistent w\<close> have al: "allocated w" and g: "guard_inv w" by (simp_all add: consistent_def)
  have "allocated w'"
  proof (rule allocatedI)
    fix t b assume "t \<in> set (tasks w')" "task_session t = Some b"
    then show "b < nextAddr w'"
      using allocated_task [OF al, of t b] assms(2) tasks by auto
  next
    fix sid' b assume "activeCalls w' sid' = Some b"
    then show "b < nextAddr w'"
      using allocated_call [OF al, of sid' b] assms(2) calls by (auto split: if_splits)
  qed
  moreover have "guard_inv w'"
  proof (rule guard_invI)
    fix b assume b: "b < nextAddr w'"
    show "length (filter (run_of b) (tasks w')) = (if isProcessing (heap w' b) then 1 else 0)"
    proof (cases "b = nextAddr w")
      case True
      have "filter (run_of b) (tasks w) = []"
        using allocated_task [OF al] True by (fastforce simp: filter_empty_conv elim: run_of.elims)
      then show ?thesis using True busy runs by simp
    next
      case False
      then show ?thesis using guard_invD [OF g, of b] b assms(2) runs busy by simp
    qed
  qed
  ultimately show ?thesis by (simp add: consistent_def)
qed

text \<open>A turn in which a task that is no run goes on, or ends.\<close>

lemma inv_other_goes_on:
  assumes i: "consistent w" and t: "t \<in> set (tasks w)" and nr: "\<And>b. \<not> run_of b t"
    and n: "nextAddr w' = nextAddr w" and c: "activeCalls w' = activeCalls w"
    and busy: "\<And>b. isProcessing (heap w' b) = isProcessing (heap w b)"
    and tasks: "tasks w' = remove1 t (tasks w) @ ts"
    and ts: "\<And>t'. t' \<in> set ts \<Longrightarrow> task_session t' = task_session t \<and> (\<forall>b. \<not> run_of b t')"
  shows "consistent w'"
proof (rule inv_keep [OF i n])
  fix sid a assume "activeCalls w' sid = Some a"
  then show "\<exists>sid'. activeCalls w sid' = Some a" using c by auto
next
  fix t' a assume t': "t' \<in> set (tasks w')" and a: "task_session t' = Some a"
  from t' tasks have "t' \<in> set (remove1 t (tasks w)) \<or> t' \<in> set ts" by simp
  then show "\<exists>t'' \<in> set (tasks w). task_session t'' = Some a"
  proof
    assume "t' \<in> set (remove1 t (tasks w))"
    then have "t' \<in> set (tasks w)" by (rule in_remove1D)
    with a show ?thesis by blast
  next
    assume "t' \<in> set ts"
    with ts a have "task_session t = Some a" by simp
    with t show ?thesis by blast
  qed
next
  fix a
  have "filter (run_of a) ts = []" using ts by (simp add: filter_empty_conv)
  then show "filter (run_of a) (tasks w') = filter (run_of a) (tasks w)"
    using tasks nr [of a] by (simp add: filter_remove1_other)
next
  fix b show "isProcessing (heap w' b) = isProcessing (heap w b)" by (rule busy)
qed

lemma inv_on_media: assumes i: "consistent w" shows "consistent (on_media env md w)"
proof -
  from i have al: "allocated w" by (simp add: consistent_def)
  let ?w' = "on_media env md w"
  from on_media_shape [of env md w]
  have n: "nextAddr ?w' = nextAddr w" and c: "activeCalls ?w' = activeCalls w"
    and d: "(tasks ?w' = tasks w \<and> (\<forall>b. isProcessing (heap ?w' b) = isProcessing (heap w b))) \<or>
      (\<exists>a. activeCalls w (media_streamSid md) = Some a \<and> \<not> isProcessing (heap w a) \<and>
           tasks ?w' = tasks w @ [PipelineTask a AwaitWav] \<and> isProcessing (heap ?w' a) \<and>
           (\<forall>b. b \<noteq> a \<longrightarrow> isProcessing (heap ?w' b) = isProcessing (heap w b)))"
    by blast+
  from d show ?thesis
  proof
    assume k: "tasks ?w' = tasks w \<and> (\<forall>b. isProcessing (heap ?w' b) = isProcessing (heap w b))"
    show ?thesis
    proof (rule inv_keep [OF i n])
      fix sid a assume "activeCalls ?w' sid = Some a"
      then show "\<exists>sid'. activeCalls w sid' = Some a" using c by auto
    next
      fix t a assume "t \<in> set (tasks ?w')" "task_session t = Some a"
      then show "\<exists>t' \<in> set (tasks w). task_session t' = Some a" using k by auto
    next
      fix a show "filter (run_of a) (tasks ?w') = filter (run_of a) (tasks w)" using k by simp
    next
      fix b show "isProcessing (heap ?w' b) = isProcessing (heap w b)" using k by simp
    qed
  next
    assume "\<exists>a. activeCalls w (media_streamSid md) = Some a \<and> \<not> isProcessing (heap w a) \<and>
           tasks ?w' = tasks w @ [PipelineTask a AwaitWav] \<and> isProcessing (heap ?w' a) \<and>
           (\<forall>b. b \<noteq> a \<longrightarrow> isProcessing (heap ?w' b) = isProcessing (heap w b))"
    then obtain a where a: "activeCalls w (media_streamSid md) = Some a"
      "\<not> isProcessing (heap w a)" "tasks ?w' = tasks w @ [PipelineTask a AwaitWav]"
      "isProcessing (heap ?w' a)"
      "\<And>b. b \<noteq> a \<Longrightarrow> isProcessing (heap ?w' b) = isProcessing (heap w b)"
      by blast
    have "a < nextAddr w" using allocated_call [OF al a(1)] .
    then show ?thesis using inv_start_run [OF i n c _ a(2) a(3) a(4) a(5)] by simp
  qed
qed

lemma inv_on_stop: assumes i: "consistent w" shows "consistent (on_stop sd w)"
proof (rule inv_keep [OF i])
  fix sid a assume "activeCalls (on_stop sd w) sid = Some a"
  then have "activeCalls w sid = Some a"
    by (simp add: on_stop_def log_def Let_def split: if_splits)
  then show "\<exists>sid'. activeCalls w sid' = Some a" by blast
next
  fix t a assume "t \<in> set (tasks (on_stop sd w))" "task_session t = Some a"
  then show "\<exists>t' \<in> set (tasks w). task_session t' = Some a"
    by (auto simp: on_stop_def log_def Let_def)
qed (simp_all add: on_stop_def log_def Let_def)

lemma inv_log: assumes i: "consistent w" shows "consistent (log e w)"
proof (rule inv_keep [OF i])
  fix sid a assume "activeCalls (log e w) sid = Some a"
  then show "\<exists>sid'. activeCalls w sid' = Some a" by (auto simp: log_def)
next
  fix t a assume "t \<in> set (tasks (log e w))" "task_session t = Some a"
  then show "\<exists>t' \<in> set (tasks w). task_session t' = Some a" by (auto simp: log_def)
qed (simp_all add: log_def)

lemma inv_reject: assumes i: "consistent w" shows "consistent (reject e w)"
proof (rule inv_keep [OF i])
  fix sid a assume "activeCalls (reject e w) sid = Some a"
  then show "\<exists>sid'. activeCalls w sid' = Some a" by (auto simp: reject_def)
next
  fix t a assume "t \<in> set (tasks (reject e w))" "task_session t = Some a"
  then show "\<exists>t' \<in> set (tasks w). task_session t' = Some a" by (auto simp: reject_def)
qed (simp_all add: reject_def)

lemma inv_close: assumes i: "consistent w" shows "consistent (w\<lparr>closedSockets := cs\<rparr>)"
proof (rule inv_keep [OF i])
  fix sid a assume "activeCalls (w\<lparr>closedSockets := cs\<rparr>) sid = Some a"
  then show "\<exists>sid'. activeCalls w sid' = Some a" by auto
next
  fix t a assume "t \<in> set (tasks (w\<lparr>closedSockets := cs\<rparr>))" "task_session t = Some a"
  then show "\<exists>t' \<in> set (tasks w). task_session t' = Some a" by auto
qed simp_all

lemma inv_start_session: assumes i: "consistent w" shows "consistent (start_session env sock sd p v w)"
proof -
  let ?w' = "start_session env sock sd p v w"
  from start_session_shape [of env sock sd p v w]
  have n: "nextAddr ?w' = Suc (nextAddr w)"
    and c: "activeCalls ?w' = (activeCalls w)(start_streamSid sd \<mapsto> nextAddr w)"
    and t: "tasks ?w' = tasks w @ [GreetingTask (nextAddr w) GreetGpt]"
    and b: "\<not> isProcessing (heap ?w' (nextAddr w))"
    and h: "\<And>b. b \<noteq> nextAddr w \<Longrightarrow> heap ?w' b = heap w b"
    by simp_all
  show ?thesis
  proof (rule inv_alloc [OF i n c _ _ b])
    show "set (tasks ?w') \<subseteq> insert (GreetingTask (nextAddr w) GreetGpt) (set (tasks w))"
      using t by auto
  next
    fix a show "filter (run_of a) (tasks ?w') = filter (run_of a) (tasks w)" using t by simp
  next
    fix b assume "b \<noteq> nextAddr w"
    then show "isProcessing (heap ?w' b) = isProcessing (heap w b)" using h by simp
  qed
qed

lemma inv_suspend_start: assumes i: "consistent w" shows "consistent (suspend (StartTask sock sd) w)"
proof (rule inv_keep [OF i])
  fix sid a assume "activeCalls (suspend (StartTask sock sd) w) sid = Some a"
  then show "\<exists>sid'. activeCalls w sid' = Some a" by (auto simp: suspend_def)
next
  fix t a assume "t \<in> set (tasks (suspend (StartTask sock sd) w))" "task_session t = Some a"
  then show "\<exists>t' \<in> set (tasks w). task_session t' = Some a" by (auto simp: suspend_def)
qed (simp_all add: suspend_def)

lemma inv_request: assumes i: "consistent w" shows "consistent (request r w)"
proof (rule inv_keep [OF i])
  fix sid a assume "activeCalls (request r w) sid = Some a"
  then show "\<exists>sid'. activeCalls w sid' = Some a" by (auto simp: request_def)
next
  fix t a assume "t \<in> set (tasks (request r w))" "task_session t = Some a"
  then show "\<exists>t' \<in> set (tasks w). task_session t' = Some a" by (auto simp: request_def)
qed (simp_all add: request_def)

lemma inv_on_start: "consistent w \<Longrightarrow> consistent (on_start env sock q sd w)"
  by (simp add: on_start_def Let_def inv_start_session inv_log inv_suspend_start inv_request)

lemma inv_on_start_resume: "consistent w \<Longrightarrow> consistent (on_start_resume env sock sd r w)"
  by (simp add: on_start_resume_def Let_def inv_start_session inv_log
           split: sum.splits option.splits)

lemma inv_on_message: "consistent w \<Longrightarrow> consistent (on_message env sock q m w)"
  by (cases m) (simp_all add: on_message_def inv_reject inv_on_start inv_on_media inv_on_stop)

lemma inv_settle: assumes i: "consistent w" shows "consistent (settle env t r w)"
proof (cases "t \<in> set (tasks w)")
  case False
  then show ?thesis using i by (simp add: settle_def)
next
  case mem: True
  let ?w = "w\<lparr>tasks := remove1 t (tasks w)\<rparr>"
  show ?thesis
  proof (cases "resume env t r ?w")
    case None
    then show ?thesis using i mem by (simp add: settle_def)
  next
    case (Some w')
    have "consistent w'"
    proof (cases t)
      case (StartTask sock sd)
      with Some obtain row where w': "w' = on_start_resume env sock sd row ?w"
        by (cases r) auto
      have "consistent ?w"
        by (rule inv_other_goes_on [OF i mem, where ts = "[]"]) (simp_all add: StartTask)
      then show ?thesis unfolding w' by (rule inv_on_start_resume)
    next
      case (GreetingTask a st)
      with Some have "sendGreeting_resume env a st r ?w = Some w'" by simp
      from greeting_resume_shape [OF this]
      have n: "nextAddr w' = nextAddr w" and c: "activeCalls w' = activeCalls w"
        and b: "\<And>b. isProcessing (heap w' b) = isProcessing (heap w b)"
        and d: "(\<exists>st'. tasks w' = remove1 t (tasks w) @ [GreetingTask a st']) \<or>
                tasks w' = remove1 t (tasks w) @ []"
        by simp_all
      from d show ?thesis
      proof (elim disjE exE)
        fix st' assume ts: "tasks w' = remove1 t (tasks w) @ [GreetingTask a st']"
        show ?thesis
          by (rule inv_other_goes_on [OF i mem _ n c b ts]) (simp_all add: GreetingTask)
      next
        assume ts: "tasks w' = remove1 t (tasks w) @ []"
        show ?thesis
          by (rule inv_other_goes_on [OF i mem _ n c b ts]) (simp_all add: GreetingTask)
      qed
    next
      case (PipelineTask a st)
      with Some have "processAudioPipeline_resume env a st r ?w = Some w'" by simp
      from pipeline_resume_shape [OF this]
      have n: "nextAddr w' = nextAddr w" and c: "activeCalls w' = activeCalls w"
        and d: "(\<exists>st'. tasks w' = remove1 (PipelineTask a st) (tasks w) @ [PipelineTask a st'] \<and>
                   (\<forall>b. isProcessing (heap w' b) = isProcessing (heap w b))) \<or>
                (tasks w' = remove1 (PipelineTask a st) (tasks w) \<and> \<not> isProcessing (heap w' a) \<and>
                   (\<forall>b. b \<noteq> a \<longrightarrow> isProcessing (heap w' b) = isProcessing (heap w b)))"
        by (simp_all add: PipelineTask)
      have mem': "PipelineTask a st \<in> set (tasks w)" using mem PipelineTask by simp
      from d show ?thesis
      proof (elim disjE exE conjE)
        fix st'
        assume "tasks w' = remove1 (PipelineTask a st) (tasks w) @ [PipelineTask a st']"
          "\<forall>b. isProcessing (heap w' b) = isProcessing (heap w b)"
        then show ?thesis using inv_run_goes_on [OF i mem' n c] by simp
      next
        assume "tasks w' = remove1 (PipelineTask a st) (tasks w)" "\<not> isProcessing (heap w' a)"
          "\<forall>b. b \<noteq> a \<longrightarrow> isProcessing (heap w' b) = isProcessing (heap w b)"
        then show ?thesis using inv_run_ends [OF i mem' n c] by simp
      qed
    qed
    then show ?thesis using mem Some by (simp add: settle_def)
  qed
qed

lemma inv_step: "consistent w \<Longrightarrow> consistent (step env l w)"
  by (cases l) (simp_all add: inv_on_message inv_settle inv_close)

text \<open>Which turns are fatal: those of the handler's throws, and no other.\<close>

lemma pipeline_resume_unhandled:
  assumes "processAudioPipeline_resume env a st r w = Some w'"
  shows "unhandled w' = unhandled w"
  using assms
  by (cases "(env, a, st, r, w)" rule: processAudioPipeline_resume.cases)
     (auto simp: world_defs Let_def split: if_splits)

lemma greeting_resume_unhandled:
  assumes "sendGreeting_resume env a st r w = Some w'"
  shows "unhandled w' = unhandled w"
  using assms
  by (cases "(env, a, st, r, w)" rule: sendGreeting_resume.cases)
     (auto simp: world_defs Let_def split: if_splits)

lemma unhandled_start_session:
  "unhandled (start_session env sock sd p v w) = unhandled w"
  by (simp add: start_session_def sendGreeting_def world_defs Let_def)

lemma unhandled_on_start_resume:
  "unhandled (on_start_resume env sock sd r w) = unhandled w"
  by (simp add: on_start_resume_def unhandled_start_session log_def Let_def
      split: sum.splits option.splits)

lemma unhandled_settle: "unhandled (settle env t r w) = unhandled w"
proof (cases "t \<in> set (tasks w)")
  case False
  then show ?thesis by (simp add: settle_def)
next
  case mem: True
  let ?w = "w\<lparr>tasks := remove1 t (tasks w)\<rparr>"
  show ?thesis
  proof (cases "resume env t r ?w")
    case None
    then show ?thesis using mem by (simp add: settle_def)
  next
    case (Some w')
    have "unhandled w' = unhandled w"
    proof (cases t)
      case (StartTask sock sd)
      with Some obtain row where "w' = on_start_resume env sock sd row ?w"
        by (cases r) auto
      then show ?thesis by (simp add: unhandled_on_start_resume)
    next
      case (GreetingTask a st)
      with Some have "sendGreeting_resume env a st r ?w = Some w'" by simp
      from greeting_resume_unhandled [OF this] show ?thesis by simp
    next
      case (PipelineTask a st)
      with Some have "processAudioPipeline_resume env a st r ?w = Some w'" by simp
      from pipeline_resume_unhandled [OF this] show ?thesis by simp
    qed
    then show ?thesis using mem Some by (simp add: settle_def)
  qed
qed

lemma not_fatal_Settle [simp]: "\<not> fatal env (Settle t r) w"
  by (simp add: fatal_def unhandled_settle)

lemma not_fatal_Close [simp]: "\<not> fatal env (Close sock) w"
  by (simp add: fatal_def)

lemma not_fatal_Start [simp]: "\<not> fatal env (Message sock q (Start sd)) w"
  by (simp add: fatal_def on_message_def on_start_def unhandled_start_session world_defs Let_def)

lemma not_fatal_Media [simp]: "\<not> fatal env (Message sock q (Media md)) w"
  by (simp add: fatal_def on_message_def on_media_def processAudioPipeline_def world_defs Let_def
      split: option.splits)

lemma not_fatal_Stop [simp]: "\<not> fatal env (Message sock q (Stop sd)) w"
  by (simp add: fatal_def on_message_def on_stop_def world_defs Let_def)

lemma fatal_Unparseable [simp]: "fatal env (Message sock q Unparseable) w"
  by (simp add: fatal_def on_message_def reject_def)

lemma fatal_JsonNull [simp]: "fatal env (Message sock q JsonNull) w"
  by (simp add: fatal_def on_message_def reject_def)

lemma fatal_Other [simp]:
  "fatal env (Message sock q (Other ev)) w =
     (ev = Some ''start'' \<or> ev = Some ''media'' \<or> ev = Some ''stop'')"
  by (simp add: fatal_def on_message_def reject_def)

lemma not_fatal_unhandled: "\<not> fatal env l w \<Longrightarrow> unhandled (step env l w) = unhandled w"
  by (simp add: fatal_def)

text \<open>A property that every turn keeps holds after any run of the loop.\<close>

lemma exec_invariant:
  assumes "P w" and "\<And>w l. P w \<Longrightarrow> P (step env l w)"
  shows "P (exec env ls w)"
  using assms(1)
proof (induction ls arbitrary: w)
  case Nil
  then show ?case by simp
next
  case (Cons l ls)
  from Cons.prems have "P (step env l w)" by (rule assms(2))
  then show ?case using Cons.IH by simp
qed

text \<open>A run that left no unhandled rejection has run all its turns.\<close>

lemma exec_append_quiet:
  assumes "unhandled (exec env xs w) = unhandled w"
  shows "exec env (xs @ ys) w = exec env ys (exec env xs w)"
  using assms
proof (induction xs arbitrary: w)
  case Nil
  show ?case by simp
next
  case (Cons l xs)
  show ?case
  proof (cases "fatal env l w")
    case True
    then have "unhandled (exec env (l # xs) w) \<noteq> unhandled w" by (simp add: fatal_def)
    with Cons.prems show ?thesis by simp
  next
    case False
    then have "unhandled (exec env xs (step env l w)) = unhandled (step env l w)"
      using Cons.prems by (simp add: fatal_def)
    from Cons.IH [OF this] show ?thesis using False by simp
  qed
qed

lemma inv_exec: "consistent w \<Longrightarrow> consistent (exec env ls w)"
  by (rule exec_invariant [where P = consistent]) (simp_all add: inv_step)

lemma inv_world0: "consistent world0"
  by (simp add: consistent_def allocated_def guard_inv_def world0_def active_runs_def)

lemma reachable_consistent: "consistent (exec env ls world0)"
  by (rule inv_exec [OF inv_world0])

section \<open>Evaluating runs and handlers\<close>

lemmas run_defs = settle_def processAudioPipeline_def sendGreeting_def world_defs Let_def

lemmas start_defs = on_message_def on_start_def on_start_resume_def start_session_def
  sendGreeting_def settle_def world_defs Let_def

lemma afterStart_eq:
  "afterStart = \<lparr>heap = (\<lambda>_. emptySession)(0 := sessionS1), nextAddr = Suc 0,
     activeCalls = [''S1'' \<mapsto> 0], tasks = [GreetingTask 0 GreetGpt], closedSockets = [],
     sent = [], logs = [CallStarted ''C1''],
     requests = [ChatCompletion [(System, defaultPrompt), (User, START_CALL)]],
     calls = [SendGreeting 0], unhandled = []\<rparr>"
  by (simp add: afterStart_def on_message_def on_start_def start_session_def sendGreeting_def
      truthy_def defaultVoiceId_def testEnv_def startS1_def sessionS1_def world_defs world0_def Let_def)

lemma testEnv_throws: "closedSendThrows testEnv"
  by (simp add: testEnv_def)

lemma trim_blank: "trim ''  '' = []"
  by (simp add: trim_def js_whitespace_def)

lemma trim_hola: "trim '' hola '' = ''hola''"
  by (simp add: trim_def js_whitespace_def)

lemma closedStart_eq: "closedStart = afterStart\<lparr>closedSockets := [0]\<rparr>"
proof -
  have "closedStart = step testEnv (Close 0) afterStart"
    by (simp add: closedStart_def afterStart_def)
  then show ?thesis by (simp add: afterStart_eq)
qed

section \<open>The registry is keyed by stream identifier\<close>

lemma pipeline_resume_frame:
  assumes "processAudioPipeline_resume env a st r w = Some w'"
  shows "calls w' = calls w \<and> (\<forall>b. streamSid (heap w' b) = streamSid (heap w b))"
  using assms
  by (cases "(env, a, st, r, w)" rule: processAudioPipeline_resume.cases)
     (auto simp: world_defs Let_def split: if_splits)

lemma greeting_resume_frame:
  assumes "sendGreeting_resume env a st r w = Some w'"
  shows "calls w' = calls w \<and> (\<forall>b. streamSid (heap w' b) = streamSid (heap w b))"
  using assms
  by (cases "(env, a, st, r, w)" rule: sendGreeting_resume.cases)
     (auto simp: world_defs Let_def split: if_splits)

lemma on_media_streamSid: "streamSid (heap (on_media env md w) b) = streamSid (heap w b)"
  by (simp add: on_media_def processAudioPipeline_def world_defs Let_def split: option.splits)

lemma registry_step_same:
  "nextAddr w' = nextAddr w \<Longrightarrow> activeCalls w' = activeCalls w \<Longrightarrow>
   (\<And>b. streamSid (heap w' b) = streamSid (heap w b)) \<Longrightarrow> registry_step w w'"
  by (simp add: registry_step_def)

lemma registry_step_start_session:
  "allocated w \<Longrightarrow> registry_step w (start_session env sock sd p v w)"
  by (auto simp: registry_step_def start_session_def sendGreeting_def world_defs Let_def
      dest: allocated_call)

lemma registry_step_log: "registry_step (log e w) w' = registry_step w w'"
  by (simp add: registry_step_def log_def)

lemma allocated_log: "allocated w \<Longrightarrow> allocated (log e w)"
  by (simp add: allocated_def log_def)

lemma registry_step_logged_start:
  assumes "allocated w"
  shows "registry_step w (start_session env sock sd p v (log e w))"
proof -
  have "allocated (log e w)" using assms by (rule allocated_log)
  then have "registry_step (log e w) (start_session env sock sd p v (log e w))"
    by (rule registry_step_start_session)
  then show ?thesis by (simp only: registry_step_log)
qed

lemma registry_step_drop_task:
  "registry_step (w\<lparr>tasks := ts\<rparr>) w' \<Longrightarrow> registry_step w w'"
  by (simp add: registry_step_def)

lemma registry_step_on_start_resume:
  assumes "allocated w" shows "registry_step w (on_start_resume env sock sd r w)"
  using assms
  by (simp add: on_start_resume_def Let_def registry_step_start_session
      registry_step_logged_start split: sum.splits option.splits)

lemma registry_step_on_message:
  assumes "allocated w" shows "registry_step w (on_message env sock q m w)"
proof (cases m)
  case (Start sd)
  show ?thesis
  proof (cases "truthy q")
    case True
    then show ?thesis by (simp add: Start on_message_def on_start_def registry_step_def world_defs)
  next
    case False
    then show ?thesis using assms
      by (simp add: Start on_message_def on_start_def Let_def registry_step_logged_start)
  qed
next
  case (Media md)
  show ?thesis unfolding Media on_message_def
    using on_media_shape [of env md w] by (simp add: registry_step_same on_media_streamSid)
next
  case (Stop sd)
  then show ?thesis by (simp add: on_message_def on_stop_def registry_step_def world_defs Let_def)
qed (simp_all add: on_message_def registry_step_def world_defs)

lemma allocated_drop_task: "allocated w \<Longrightarrow> allocated (w\<lparr>tasks := remove1 t (tasks w)\<rparr>)"
  by (auto simp: allocated_def dest: in_remove1D)

lemma registry_step_settle:
  assumes al: "allocated w" shows "registry_step w (settle env t r w)"
proof (cases "t \<in> set (tasks w)")
  case False
  then show ?thesis by (simp add: settle_def registry_step_def)
next
  case mem: True
  let ?w = "w\<lparr>tasks := remove1 t (tasks w)\<rparr>"
  show ?thesis
  proof (cases "resume env t r ?w")
    case None
    then show ?thesis using mem by (simp add: settle_def registry_step_def)
  next
    case (Some w')
    have "registry_step ?w w'"
    proof (cases t)
      case (StartTask sock sd)
      with Some obtain row where "w' = on_start_resume env sock sd row ?w"
        by (cases r) auto
      then show ?thesis
        using registry_step_on_start_resume [OF allocated_drop_task [OF al]] by simp
    next
      case (GreetingTask a st)
      with Some have s: "sendGreeting_resume env a st r ?w = Some w'" by simp
      show ?thesis
        using greeting_resume_shape [OF s] greeting_resume_frame [OF s]
        by (intro registry_step_same) simp_all
    next
      case (PipelineTask a st)
      with Some have s: "processAudioPipeline_resume env a st r ?w = Some w'" by simp
      show ?thesis
        using pipeline_resume_shape [OF s] pipeline_resume_frame [OF s]
        by (intro registry_step_same) simp_all
    qed
    then have "registry_step w w'" by (rule registry_step_drop_task)
    then show ?thesis using mem Some by (simp add: settle_def)
  qed
qed

lemma registry_step_step: "allocated w \<Longrightarrow> registry_step w (step env l w)"
  by (cases l) (simp_all add: registry_step_on_message registry_step_settle, simp add: registry_step_def)

lemma keyed_step:
  assumes "consistent w" and k: "keyed w" shows "keyed (step env l w)"
proof -
  from assms have al: "allocated w" by (simp add: consistent_def)
  from registry_step_step [OF al, of env l] k show ?thesis
    by (fastforce simp: registry_step_def keyed_def)
qed

lemma keyed_exec:
  assumes "consistent w" and "keyed w" shows "keyed (exec env ls w)"
proof -
  have "consistent (exec env ls w) \<and> keyed (exec env ls w)"
    by (rule exec_invariant [where P = "\<lambda>w. consistent w \<and> keyed w"])
       (simp_all add: assms keyed_step inv_step)
  then show ?thesis by simp
qed

lemma keyed_world0: "keyed world0"
  by (simp add: keyed_def world0_def)

lemma unregistered_step:
  assumes "consistent w" and u: "unregistered w a" shows "unregistered (step env l w) a"
proof -
  from assms have al: "allocated w" by (simp add: consistent_def)
  from registry_step_step [OF al, of env l] u show ?thesis
    by (fastforce simp: registry_step_def unregistered_def)
qed

lemma unregistered_exec:
  assumes "consistent w" and "unregistered w a" shows "unregistered (exec env ls w) a"
proof -
  have "consistent (exec env ls w) \<and> unregistered (exec env ls w) a"
    by (rule exec_invariant [where P = "\<lambda>w. consistent w \<and> unregistered w a"])
       (simp_all add: assms unregistered_step inv_step)
  then show ?thesis by simp
qed

section \<open>Feeding frames\<close>

lemma mod_carry: "(x mod 150 + k) mod 150 = (x + k) mod (150::nat)"
  by (rule mod_add_left_eq)

lemma div_carry: "x div 150 + (x mod 150 + k) div 150 = (x + k) div (150::nat)"
proof -
  have "(x + k) div 150 = (150 * (x div 150) + (x mod 150 + k)) div 150"
    by (simp add: add.assoc [symmetric])
  also have "\<dots> = x div 150 + (x mod 150 + k) div 150"
    by (rule div_mult_self4) simp
  finally show ?thesis by simp
qed

lemma settle_task_frame:
  assumes "\<And>sock sd. t \<noteq> StartTask sock sd"
  shows "activeCalls (settle env t r w) = activeCalls w \<and> calls (settle env t r w) = calls w \<and>
         audioBuffer (heap (settle env t r w) b) = audioBuffer (heap w b)"
proof (cases "t \<in> set (tasks w)")
  case False
  then show ?thesis by (simp add: settle_def)
next
  case mem: True
  let ?w = "w\<lparr>tasks := remove1 t (tasks w)\<rparr>"
  show ?thesis
  proof (cases "resume env t r ?w")
    case None
    then show ?thesis using mem by (simp add: settle_def)
  next
    case (Some w')
    have "activeCalls w' = activeCalls w \<and> calls w' = calls w \<and>
          audioBuffer (heap w' b) = audioBuffer (heap w b)"
    proof (cases t)
      case (StartTask sock sd)
      then show ?thesis using assms by simp
    next
      case (GreetingTask a st)
      with Some have s: "sendGreeting_resume env a st r ?w = Some w'" by simp
      show ?thesis using greeting_resume_shape [OF s] greeting_resume_frame [OF s] by simp
    next
      case (PipelineTask a st)
      with Some have s: "processAudioPipeline_resume env a st r ?w = Some w'" by simp
      show ?thesis using pipeline_resume_shape [OF s] pipeline_resume_frame [OF s] by simp
    qed
    then show ?thesis using mem Some by (simp add: settle_def)
  qed
qed

lemma on_media_feed:
  assumes c: "activeCalls w (media_streamSid md) = Some a"
    and n: "length (audioBuffer (heap w a)) < 150"
  shows "activeCalls (on_media env md w) = activeCalls w \<and>
         length (audioBuffer (heap (on_media env md w) a)) =
           (length (audioBuffer (heap w a)) + (if media_track md = ''inbound'' then 1 else 0))
             mod 150 \<and>
         pipeline_calls (on_media env md w) =
           pipeline_calls w +
           (length (audioBuffer (heap w a)) + (if media_track md = ''inbound'' then 1 else 0))
             div 150"
proof (cases "media_track md = ''inbound''")
  case False
  then show ?thesis using n by (simp add: on_media_def)
next
  case True
  show ?thesis
  proof (cases "length (audioBuffer (heap w a)) = 149")
    case full: True
    then show ?thesis using c True
      by (simp add: on_media_def processAudioPipeline_def pipeline_calls_def world_defs Let_def)
  next
    case False
    with n have "length (audioBuffer (heap w a)) + 1 < 150" by simp
    then show ?thesis using c True
      by (simp add: on_media_def pipeline_calls_def world_defs Let_def)
  qed
qed

lemma feed_step:
  assumes c: "activeCalls w sid = Some a" and n: "length (audioBuffer (heap w a)) < 150"
    and l: "media_turn sid l"
  shows "activeCalls (step env l w) sid = Some a \<and>
         length (audioBuffer (heap (step env l w) a)) =
           (length (audioBuffer (heap w a)) + (if inbound_frame l then 1 else 0)) mod 150 \<and>
         pipeline_calls (step env l w) =
           pipeline_calls w +
           (length (audioBuffer (heap w a)) + (if inbound_frame l then 1 else 0)) div 150"
proof (cases l)
  case (Message sock q m)
  with l obtain md where m: "m = Media md" and s: "media_streamSid md = sid"
    by (cases m) auto
  from c s have c': "activeCalls w (media_streamSid md) = Some a" by simp
  have st: "step env l w = on_media env md w" by (simp add: Message m on_message_def)
  have ib: "inbound_frame l = (media_track md = ''inbound'')" by (simp add: Message m)
  from on_media_feed [OF c' n, of env] show ?thesis
    unfolding st ib using c by simp
next
  case (Settle t r)
  with l have "\<And>sock sd. t \<noteq> StartTask sock sd" by auto
  from settle_task_frame [OF this, of env r w a] show ?thesis
    using c n by (simp add: Settle pipeline_calls_def)
next
  case (Close sock)
  then show ?thesis using c n by (simp add: pipeline_calls_def)
qed

lemma media_turn_not_fatal: "media_turn sid l \<Longrightarrow> \<not> fatal env l w"
proof (cases l)
  case (Message sock q m)
  assume "media_turn sid l"
  with Message obtain md where "m = Media md" by (cases m) auto
  with Message show ?thesis by simp
qed simp_all

lemma media_turns_unhandled:
  "\<forall>l \<in> set ls. media_turn sid l \<Longrightarrow> unhandled (exec env ls w) = unhandled w"
proof (induction ls arbitrary: w)
  case Nil
  show ?case by simp
next
  case (Cons l ls)
  from Cons.prems have "media_turn sid l" and r: "\<forall>l \<in> set ls. media_turn sid l" by simp_all
  then have nf: "\<not> fatal env l w" by (simp add: media_turn_not_fatal)
  then have u: "unhandled (step env l w) = unhandled w" by (rule not_fatal_unhandled)
  have "unhandled (exec env (l # ls) w) = unhandled (exec env ls (step env l w))"
    using nf by simp
  also have "\<dots> = unhandled (step env l w)" using r by (rule Cons.IH)
  finally show ?case using u by simp
qed

lemma feed_exec:
  assumes "activeCalls w sid = Some a" and "length (audioBuffer (heap w a)) < 150"
    and "\<forall>l \<in> set ls. media_turn sid l"
  shows "activeCalls (exec env ls w) sid = Some a \<and>
         length (audioBuffer (heap (exec env ls w) a)) =
           (length (audioBuffer (heap w a)) + length (filter inbound_frame ls)) mod 150 \<and>
         pipeline_calls (exec env ls w) =
           pipeline_calls w +
           (length (audioBuffer (heap w a)) + length (filter inbound_frame ls)) div 150"
  using assms
proof (induction ls arbitrary: w)
  case Nil
  then show ?case by simp
next
  case (Cons l ls)
  define n where "n = length (audioBuffer (heap w a))"
  define i :: nat where "i = (if inbound_frame l then 1 else 0)"
  define k where "k = length (filter inbound_frame ls)"
  define w1 where "w1 = step env l w"
  from Cons.prems have l: "media_turn sid l" and ls: "\<forall>l \<in> set ls. media_turn sid l"
    by simp_all
  from feed_step [OF Cons.prems(1,2) l, of env]
  have c1: "activeCalls w1 sid = Some a"
    and n1: "length (audioBuffer (heap w1 a)) = (n + i) mod 150"
    and p1: "pipeline_calls w1 = pipeline_calls w + (n + i) div 150"
    by (simp_all add: n_def i_def w1_def)
  have lt: "length (audioBuffer (heap w1 a)) < 150" unfolding n1 by simp
  from Cons.IH [OF c1 lt ls]
  have c2: "activeCalls (exec env ls w1) sid = Some a"
    and n2: "length (audioBuffer (heap (exec env ls w1) a)) =
               (length (audioBuffer (heap w1 a)) + k) mod 150"
    and p2: "pipeline_calls (exec env ls w1) =
               pipeline_calls w1 + (length (audioBuffer (heap w1 a)) + k) div 150"
    by (simp_all only: k_def)
  have len: "length (filter inbound_frame (l # ls)) = i + k" by (simp add: i_def k_def)
  have e: "exec env (l # ls) w = exec env ls w1"
    using media_turn_not_fatal [OF l, of env w] by (simp add: w1_def)
  have "length (audioBuffer (heap (exec env ls w1) a)) = (n + (i + k)) mod 150"
    unfolding n2 n1 by (simp only: mod_carry add.assoc)
  moreover have "pipeline_calls (exec env ls w1) = pipeline_calls w + (n + (i + k)) div 150"
    unfolding p2 p1 n1 by (simp only: div_carry add.assoc)
  ultimately show ?case unfolding e len n_def [symmetric] using c2 by blast
qed

lemma bounded_on_media: "bounded_buffers w \<Longrightarrow> bounded_buffers (on_media env md w)"
  by (auto simp: bounded_buffers_def on_media_def processAudioPipeline_def world_defs Let_def
      not_le split: option.splits)

lemma bounded_start_session:
  "bounded_buffers w \<Longrightarrow> bounded_buffers (start_session env sock sd p v w)"
  by (simp add: bounded_buffers_def start_session_def sendGreeting_def world_defs Let_def)

lemma bounded_log: "bounded_buffers (log e w) = bounded_buffers w"
  by (simp add: bounded_buffers_def log_def)

lemma bounded_on_start_resume:
  "bounded_buffers w \<Longrightarrow> bounded_buffers (on_start_resume env sock sd r w)"
  by (simp add: on_start_resume_def Let_def bounded_start_session bounded_log
      split: sum.splits option.splits)

lemma bounded_on_message:
  "bounded_buffers w \<Longrightarrow> bounded_buffers (on_message env sock q m w)"
proof (cases m)
  case (Start sd)
  assume b: "bounded_buffers w"
  show ?thesis
  proof (cases "truthy q")
    case True
    then show ?thesis using b
      by (simp add: Start on_message_def on_start_def bounded_buffers_def world_defs)
  next
    case False
    then show ?thesis using b
      by (simp add: Start on_message_def on_start_def Let_def bounded_start_session bounded_log)
  qed
next
  case (Media md)
  assume "bounded_buffers w"
  then show ?thesis by (simp add: Media on_message_def bounded_on_media)
qed (simp_all add: on_message_def on_stop_def bounded_buffers_def world_defs Let_def)

lemma bounded_settle: assumes b: "bounded_buffers w" shows "bounded_buffers (settle env t r w)"
proof (cases t)
  case (StartTask sock sd)
  show ?thesis
  proof (cases r)
    case (CampaignRow row)
    have "bounded_buffers (w\<lparr>tasks := remove1 t (tasks w)\<rparr>)"
      using b by (simp add: bounded_buffers_def)
    then show ?thesis using b
      by (simp add: settle_def StartTask CampaignRow bounded_on_start_resume)
  qed (use b in \<open>simp_all add: settle_def StartTask\<close>)
next
  case (GreetingTask a st)
  then have "\<And>sock sd. t \<noteq> StartTask sock sd" by simp
  from settle_task_frame [OF this, of env r w] b show ?thesis
    by (simp add: bounded_buffers_def)
next
  case (PipelineTask a st)
  then have "\<And>sock sd. t \<noteq> StartTask sock sd" by simp
  from settle_task_frame [OF this, of env r w] b show ?thesis
    by (simp add: bounded_buffers_def)
qed

lemma bounded_step: "bounded_buffers w \<Longrightarrow> bounded_buffers (step env l w)"
  by (cases l) (simp_all add: bounded_on_message bounded_settle, simp add: bounded_buffers_def)

lemma bounded_exec: "bounded_buffers w \<Longrightarrow> bounded_buffers (exec env ls w)"
  by (rule exec_invariant [where P = bounded_buffers]) (simp_all add: bounded_step)

lemma bounded_world0: "bounded_buffers world0"
  by (simp add: bounded_buffers_def world0_def emptySession_def)

lemma buffered_fields:
  "activeCalls (buffered a cs w) = activeCalls w"
  "audioBuffer (heap (buffered a cs w) a) = audioBuffer (heap w a) @ cs"
  "isProcessing (heap (buffered a cs w) b) = isProcessing (heap w b)"
  "calls (buffered a cs w) = calls w" "requests (buffered a cs w) = requests w"
  "tasks (buffered a cs w) = tasks w" "nextAddr (buffered a cs w) = nextAddr w"
  "unhandled (buffered a cs w) = unhandled w"
  by (simp_all add: buffered_def upd_def)

lemma buffered_buffered: "buffered a ds (buffered a cs w) = buffered a (cs @ ds) w"
  by (simp add: buffered_def upd_def)

lemma buffered_Nil: "buffered a [] w = w"
  by (simp add: buffered_def upd_def)

lemma on_media_append:
  assumes "activeCalls w (media_streamSid md) = Some a" and "media_track md = ''inbound''"
    and "length (audioBuffer (heap w a)) + 1 < 150"
  shows "on_media env md w = buffered a [fromBase64 env (media_payload md)] w"
  using assms by (simp add: on_media_def buffered_def Let_def upd_def)

lemma feed_frames:
  assumes "activeCalls w sid = Some a"
    and "\<forall>md \<in> set mds. media_track md = ''inbound'' \<and> media_streamSid md = sid"
    and "length (audioBuffer (heap w a)) + length mds < 150"
  shows "exec env (map (\<lambda>md. Message sock q (Media md)) mds) w =
         buffered a (map (\<lambda>md. fromBase64 env (media_payload md)) mds) w"
  using assms
proof (induction mds arbitrary: w)
  case Nil
  show ?case by (simp add: buffered_Nil)
next
  case (Cons md mds)
  let ?c = "fromBase64 env (media_payload md)"
  from Cons.prems have md: "media_track md = ''inbound''" "activeCalls w (media_streamSid md) = Some a"
    and lt: "length (audioBuffer (heap w a)) + 1 < 150" by simp_all
  have s: "on_media env md w = buffered a [?c] w" using md lt by (simp add: on_media_append)
  have "exec env (map (\<lambda>md. Message sock q (Media md)) mds) (buffered a [?c] w) =
        buffered a (map (\<lambda>md. fromBase64 env (media_payload md)) mds) (buffered a [?c] w)"
    using Cons.IH [of "buffered a [?c] w"] Cons.prems by (simp add: buffered_fields)
  then show ?case by (simp add: on_message_def s buffered_buffered)
qed

lemma on_media_flush:
  assumes "activeCalls w (media_streamSid md) = Some a" and "media_track md = ''inbound''"
    and "length (audioBuffer (heap w a)) = 149"
  shows "on_media env md w =
         processAudioPipeline env a
           (concat (audioBuffer (heap w a) @ [fromBase64 env (media_payload md)]))
           (upd a (\<lambda>s. s\<lparr>audioBuffer := []\<rparr>) w)"
  using assms by (simp add: on_media_def Let_def upd_def)

lemma feed_150_frames:
  assumes c: "activeCalls w sid = Some a" and e: "audioBuffer (heap w a) = []"
    and mds: "\<forall>md \<in> set mds. media_track md = ''inbound'' \<and> media_streamSid md = sid"
    and len: "length mds = 150"
  shows "exec env (map (\<lambda>md. Message sock q (Media md)) mds) w =
         processAudioPipeline env a (concat (map (\<lambda>md. fromBase64 env (media_payload md)) mds)) w"
proof -
  from len obtain pre md where split: "mds = pre @ [md]"
    by (cases mds rule: rev_cases) auto
  with len have lp: "length pre = 149" by simp
  from mds split have pre: "\<forall>md \<in> set pre. media_track md = ''inbound'' \<and> media_streamSid md = sid"
    and md: "media_track md = ''inbound''" "media_streamSid md = sid" by simp_all
  let ?cs = "map (\<lambda>md. fromBase64 env (media_payload md)) pre"
  have f: "exec env (map (\<lambda>md. Message sock q (Media md)) pre) w = buffered a ?cs w"
    using feed_frames [OF c pre, of env sock q] e lp by simp
  have "on_media env md (buffered a ?cs w) =
        processAudioPipeline env a
          (concat (audioBuffer (heap (buffered a ?cs w) a) @ [fromBase64 env (media_payload md)]))
          (upd a (\<lambda>s. s\<lparr>audioBuffer := []\<rparr>) (buffered a ?cs w))"
    using on_media_flush [of "buffered a ?cs w" md a env] c md e lp
    by (simp add: buffered_fields)
  moreover have "upd a (\<lambda>s. s\<lparr>audioBuffer := []\<rparr>) (buffered a ?cs w) = w"
  proof -
    have "(heap w a)\<lparr>audioBuffer := []\<rparr> = heap w a"
      using e by (cases "heap w a") simp
    then show ?thesis by (simp add: buffered_def upd_def)
  qed
  ultimately have "on_media env md (buffered a ?cs w) =
        processAudioPipeline env a (concat (?cs @ [fromBase64 env (media_payload md)])) w"
    using e by (simp add: buffered_fields)
  moreover have "unhandled (exec env (map (\<lambda>md. Message sock q (Media md)) pre) w) = unhandled w"
    by (simp add: f buffered_fields)
  ultimately show ?thesis by (simp add: split exec_append_quiet f on_message_def)
qed

lemma flushedS1_eq:
  "flushedS1 = processAudioPipeline testEnv 0
     (concat (replicate 150 (fromBase64 testEnv ''AAAA''))) afterStart"
proof -
  have "flushedS1 = exec testEnv (map (\<lambda>md. Message 0 None (Media md)) (replicate 150 frameS1))
          afterStart"
    by (simp add: flushedS1_def afterStart_def)
  also have "\<dots> = processAudioPipeline testEnv 0
     (concat (map (\<lambda>md. fromBase64 testEnv (media_payload md)) (replicate 150 frameS1))) afterStart"
    by (rule feed_150_frames [where sid = "''S1''"])
       (simp_all add: afterStart_eq sessionS1_def frameS1_def)
  finally show ?thesis by (simp add: frameS1_def)
qed

lemma bufferedS1_eq:
  "bufferedS1 = buffered 0 (replicate 149 (fromBase64 testEnv ''AAAA'')) afterStart"
proof -
  have "bufferedS1 = exec testEnv (map (\<lambda>md. Message 0 None (Media md)) (replicate 149 frameS1))
          afterStart"
    by (simp add: bufferedS1_def afterStart_def)
  also have "\<dots> = buffered 0 (map (\<lambda>md. fromBase64 testEnv (media_payload md))
                        (replicate 149 frameS1)) afterStart"
    by (rule feed_frames [where sid = "''S1''"])
       (simp_all add: afterStart_eq sessionS1_def frameS1_def)
  finally show ?thesis by (simp add: frameS1_def)
qed

section \<open>Messages that no case handles\<close>

lemma unknown_event_step: "unknown_event l \<Longrightarrow> step env l w = w"
  by (cases "(l)" rule: unknown_event.cases) (simp_all add: on_message_def)

lemma unknown_event_not_fatal: "unknown_event l \<Longrightarrow> \<not> fatal env l w"
  by (simp add: fatal_def unknown_event_step)

lemma unknown_event_exec: "\<forall>l \<in> set ls. unknown_event l \<Longrightarrow> exec env ls w = w"
  by (induction ls arbitrary: w) (simp_all add: unknown_event_step unknown_event_not_fatal)

lemma unknown_event_exec_append:
  assumes "\<forall>l \<in> set ls. unknown_event l"
  shows "exec env (ls @ rest) w = exec env rest w"
proof -
  have e: "exec env ls w = w" using assms by (rule unknown_event_exec)
  then have "unhandled (exec env ls w) = unhandled w" by simp
  from exec_append_quiet [OF this, of rest] show ?thesis by (simp add: e)
qed

section \<open>C1: the busy guard\<close>

text \<open>A turn of a run that leaves the flag clear has ended the run.\<close>

lemma run_ended:
  assumes c: "consistent w" and t: "PipelineTask a st \<in> set (tasks w)"
    and n: "\<not> isProcessing (heap (settle env (PipelineTask a st) r w) a)"
  shows "active_runs (settle env (PipelineTask a st) r w) a = 0"
proof -
  let ?w' = "settle env (PipelineTask a st) r w"
  from c have al: "allocated w" by (simp add: consistent_def)
  have "consistent ?w'" using c by (rule inv_settle)
  then have g: "guard_inv ?w'" by (simp add: consistent_def)
  have "a < nextAddr w" using allocated_task [OF al t] by simp
  moreover have "nextAddr w \<le> nextAddr ?w'"
    using registry_step_settle [OF al, of env "PipelineTask a st" r]
    by (simp add: registry_step_def)
  ultimately have "a < nextAddr ?w'" by simp
  from guard_invD [OF g this] n show ?thesis by (simp add: active_runs_def)
qed

text \<open>The turns that end a run: they take the task off and clear the flag.\<close>

lemma last_turn_clears_flag:
  assumes t: "PipelineTask a st \<in> set (tasks w)"
    and d: "r = rejected st e \<or>
            (st = AwaitTranscription \<and> r = Text (Inr heard) \<and> trim heard = []) \<or>
            (st = AwaitErrText code \<and> r = Text body) \<or>
            (st = AwaitMulaw \<and> r = Bytes (Inr reply))"
  shows "\<not> isProcessing (heap (settle env (PipelineTask a st) r w) a) \<and>
         tasks (settle env (PipelineTask a st) r w) = remove1 (PipelineTask a st) (tasks w)"
  using d
proof (elim disjE conjE)
  assume "r = rejected st e"
  then show ?thesis using t by (cases st) (simp_all add: settle_def world_defs)
next
  assume "st = AwaitTranscription" "r = Text (Inr heard)" "trim heard = []"
  then show ?thesis using t by (simp add: settle_def world_defs)
next
  assume "st = AwaitErrText code" "r = Text body"
  then show ?thesis using t by (cases body) (simp_all add: settle_def world_defs)
next
  assume "st = AwaitMulaw" "r = Bytes (Inr reply)"
  then show ?thesis using t by (simp add: settle_def world_defs)
qed

text \<open>
  A run on an idle session that no stage fails, turn by turn: the flag is set from the
  call to the turn before the last, and clear after the last.
\<close>

lemma successful_run:
  assumes n: "\<And>st. PipelineTask a st \<notin> set (tasks w)" and i: "\<not> isProcessing (heap w a)"
    and h: "trim heard \<noteq> []"
  shows "(let w0 = processAudioPipeline env a audio w;
              w1 = settle env (PipelineTask a AwaitWav) (Bytes (Inr wav)) w0;
              w2 = settle env (PipelineTask a AwaitTranscription) (Text (Inr heard)) w1;
              w3 = settle env (PipelineTask a AwaitGpt) (Chat (Inr content)) w2;
              w4 = settle env (PipelineTask a AwaitTts) (Http (Inr (True, code))) w3;
              w5 = settle env (PipelineTask a AwaitArrayBuffer) (Bytes (Inr speech)) w4;
              w6 = settle env (PipelineTask a AwaitMulaw) (Bytes (Inr reply)) w5
          in isProcessing (heap w0 a) \<and> isProcessing (heap w1 a) \<and> isProcessing (heap w2 a) \<and>
             isProcessing (heap w3 a) \<and> isProcessing (heap w4 a) \<and> isProcessing (heap w5 a) \<and>
             \<not> isProcessing (heap w6 a) \<and> tasks w6 = tasks w)"
  using n i h by (simp add: run_defs remove1_append)

text \<open>
  C1. In every state the event loop can reach from start-up, whatever messages arrive and
  however the awaits settle: an allocated session has exactly one pipeline run in flight
  when its busy flag is set and none when it is clear; a session with a run in flight has
  the flag set; a call of the pipeline on a session whose flag is set starts no run and
  changes nothing but the trace of calls; every turn that ends a run (a stage that
  rejects, a blank transcript, the text of a synthesis response that is not ok, the send
  of the reply) takes the task of the run off and leaves the flag clear and no run in
  flight; and a run on an idle session that no stage fails has the flag set after the call
  and after each of its turns but the last, and clear after the last, with the tasks as
  they were before the call. So a run is entered only with the flag clear, the flag stays
  set until the run's last turn, and it is clear after every turn that ends the run
  (success, empty transcript, or failure).
\<close>

theorem busy_guard:
  assumes "w = exec env ls world0"
  shows "(a < nextAddr w \<longrightarrow> active_runs w a = (if isProcessing (heap w a) then 1 else 0)) \<and>
         (PipelineTask a st \<in> set (tasks w) \<longrightarrow> isProcessing (heap w a)) \<and>
         (isProcessing (heap w a) \<longrightarrow>
            processAudioPipeline env a audio w = called (ProcessAudioPipeline a audio) w) \<and>
         (PipelineTask a st \<in> set (tasks w) \<and>
          (r = rejected st e \<or>
           (st = AwaitTranscription \<and> r = Text (Inr heard) \<and> trim heard = []) \<or>
           (st = AwaitErrText code \<and> r = Text body) \<or>
           (st = AwaitMulaw \<and> r = Bytes (Inr reply))) \<longrightarrow>
            \<not> isProcessing (heap (settle env (PipelineTask a st) r w) a) \<and>
            active_runs (settle env (PipelineTask a st) r w) a = 0 \<and>
            tasks (settle env (PipelineTask a st) r w) = remove1 (PipelineTask a st) (tasks w)) \<and>
         (\<not> isProcessing (heap w a) \<and> trim said \<noteq> [] \<longrightarrow>
            (let w0 = processAudioPipeline env a audio w;
                 w1 = settle env (PipelineTask a AwaitWav) (Bytes (Inr wav)) w0;
                 w2 = settle env (PipelineTask a AwaitTranscription) (Text (Inr said)) w1;
                 w3 = settle env (PipelineTask a AwaitGpt) (Chat (Inr content)) w2;
                 w4 = settle env (PipelineTask a AwaitTts) (Http (Inr (True, code))) w3;
                 w5 = settle env (PipelineTask a AwaitArrayBuffer) (Bytes (Inr speech)) w4;
                 w6 = settle env (PipelineTask a AwaitMulaw) (Bytes (Inr reply)) w5
             in isProcessing (heap w0 a) \<and> isProcessing (heap w1 a) \<and>
                isProcessing (heap w2 a) \<and> isProcessing (heap w3 a) \<and>
                isProcessing (heap w4 a) \<and> isProcessing (heap w5 a) \<and>
                \<not> isProcessing (heap w6 a) \<and> tasks w6 = tasks w))"
proof -
  have i: "consistent w" unfolding assms by (rule inv_exec [OF inv_world0])
  then have al: "allocated w" and g: "guard_inv w" by (simp_all add: consistent_def)
  have 1: "a < nextAddr w \<longrightarrow> active_runs w a = (if isProcessing (heap w a) then 1 else 0)"
    using g by (simp add: guard_inv_def)
  have busy: "isProcessing (heap w a)" if t: "PipelineTask a stage \<in> set (tasks w)" for stage
  proof -
    have a: "a < nextAddr w" using allocated_task [OF al t] by simp
    have "0 < length (filter (run_of a) (tasks w))"
      using t by (rule length_filter_pos) simp
    then show ?thesis using guard_invD [OF g a] by (simp split: if_splits)
  qed
  have 2: "PipelineTask a st \<in> set (tasks w) \<longrightarrow> isProcessing (heap w a)"
    using busy by simp
  have 3: "isProcessing (heap w a) \<longrightarrow>
            processAudioPipeline env a audio w = called (ProcessAudioPipeline a audio) w"
    by (simp add: processAudioPipeline_def called_def Let_def)
  have 4: "PipelineTask a st \<in> set (tasks w) \<and>
          (r = rejected st e \<or>
           (st = AwaitTranscription \<and> r = Text (Inr heard) \<and> trim heard = []) \<or>
           (st = AwaitErrText code \<and> r = Text body) \<or>
           (st = AwaitMulaw \<and> r = Bytes (Inr reply))) \<longrightarrow>
            \<not> isProcessing (heap (settle env (PipelineTask a st) r w) a) \<and>
            active_runs (settle env (PipelineTask a st) r w) a = 0 \<and>
            tasks (settle env (PipelineTask a st) r w) = remove1 (PipelineTask a st) (tasks w)"
  proof (intro impI, elim conjE)
    assume t: "PipelineTask a st \<in> set (tasks w)"
      and d: "r = rejected st e \<or>
           (st = AwaitTranscription \<and> r = Text (Inr heard) \<and> trim heard = []) \<or>
           (st = AwaitErrText code \<and> r = Text body) \<or>
           (st = AwaitMulaw \<and> r = Bytes (Inr reply))"
    note f = last_turn_clears_flag [OF t d, of env]
    from f have n: "\<not> isProcessing (heap (settle env (PipelineTask a st) r w) a)" by simp
    have "active_runs (settle env (PipelineTask a st) r w) a = 0"
      using i t n by (rule run_ended)
    with f show "\<not> isProcessing (heap (settle env (PipelineTask a st) r w) a) \<and>
            active_runs (settle env (PipelineTask a st) r w) a = 0 \<and>
            tasks (settle env (PipelineTask a st) r w) = remove1 (PipelineTask a st) (tasks w)"
      by simp
  qed
  have 5: "\<not> isProcessing (heap w a) \<and> trim said \<noteq> [] \<longrightarrow>
            (let w0 = processAudioPipeline env a audio w;
                 w1 = settle env (PipelineTask a AwaitWav) (Bytes (Inr wav)) w0;
                 w2 = settle env (PipelineTask a AwaitTranscription) (Text (Inr said)) w1;
                 w3 = settle env (PipelineTask a AwaitGpt) (Chat (Inr content)) w2;
                 w4 = settle env (PipelineTask a AwaitTts) (Http (Inr (True, code))) w3;
                 w5 = settle env (PipelineTask a AwaitArrayBuffer) (Bytes (Inr speech)) w4;
                 w6 = settle env (PipelineTask a AwaitMulaw) (Bytes (Inr reply)) w5
             in isProcessing (heap w0 a) \<and> isProcessing (heap w1 a) \<and>
                isProcessing (heap w2 a) \<and> isProcessing (heap w3 a) \<and>
                isProcessing (heap w4 a) \<and> isProcessing (heap w5 a) \<and>
                \<not> isProcessing (heap w6 a) \<and> tasks w6 = tasks w)"
  proof (intro impI, elim conjE)
    assume idle: "\<not> isProcessing (heap w a)" and h: "trim said \<noteq> []"
    from idle busy have "\<And>stage. PipelineTask a stage \<notin> set (tasks w)" by blast
    from successful_run [OF this idle h]
    show "let w0 = processAudioPipeline env a audio w;
                 w1 = settle env (PipelineTask a AwaitWav) (Bytes (Inr wav)) w0;
                 w2 = settle env (PipelineTask a AwaitTranscription) (Text (Inr said)) w1;
                 w3 = settle env (PipelineTask a AwaitGpt) (Chat (Inr content)) w2;
                 w4 = settle env (PipelineTask a AwaitTts) (Http (Inr (True, code))) w3;
                 w5 = settle env (PipelineTask a AwaitArrayBuffer) (Bytes (Inr speech)) w4;
                 w6 = settle env (PipelineTask a AwaitMulaw) (Bytes (Inr reply)) w5
             in isProcessing (heap w0 a) \<and> isProcessing (heap w1 a) \<and>
                isProcessing (heap w2 a) \<and> isProcessing (heap w3 a) \<and>
                isProcessing (heap w4 a) \<and> isProcessing (heap w5 a) \<and>
                \<not> isProcessing (heap w6 a) \<and> tasks w6 = tasks w" .
  qed
  from 1 2 3 4 5 show ?thesis by (intro conjI)
qed

lemma heardS1_eq:
  "heardS1 = settle testEnv (PipelineTask 0 AwaitWav) (Bytes (Inr [3])) flushedS1"
proof -
  let ?xs = "Message 0 None (Start startS1) # replicate 150 (Message 0 None (Media frameS1))"
  let ?l = "Settle (PipelineTask 0 AwaitWav) (Bytes (Inr [3]))"
  have f: "exec testEnv ?xs world0 = flushedS1" by (simp only: flushedS1_def)
  have "unhandled flushedS1 = unhandled world0"
    by (simp add: flushedS1_eq afterStart_eq processAudioPipeline_def world_defs Let_def
        world0_def)
  then have q: "unhandled (exec testEnv ?xs world0) = unhandled world0" by (simp only: f)
  have "heardS1 = exec testEnv (?xs @ [?l]) world0" by (simp only: heardS1_def append_Cons)
  also have "\<dots> = exec testEnv [?l] (exec testEnv ?xs world0)"
    using q by (rule exec_append_quiet)
  also have "\<dots> = exec testEnv [?l] flushedS1" by (simp only: f)
  also have "\<dots> = settle testEnv (PipelineTask 0 AwaitWav) (Bytes (Inr [3])) flushedS1"
    by simp
  finally show ?thesis .
qed

theorem busy_guard_witness:
  "flushedS1 = exec testEnv
     (Message 0 None (Start startS1) # replicate 150 (Message 0 None (Media frameS1))) world0 \<and>
   (0::nat) < nextAddr flushedS1 \<and> PipelineTask 0 AwaitWav \<in> set (tasks flushedS1) \<and>
   active_runs flushedS1 0 = 1 \<and> isProcessing (heap flushedS1 0) \<and>
   processAudioPipeline testEnv 0 [1] flushedS1 = called (ProcessAudioPipeline 0 [1]) flushedS1 \<and>
   \<not> isProcessing (heap (settle testEnv (PipelineTask 0 AwaitWav)
                          (Bytes (Inl (Failure ''ffmpeg''))) flushedS1) 0) \<and>
   active_runs (settle testEnv (PipelineTask 0 AwaitWav)
                  (Bytes (Inl (Failure ''ffmpeg''))) flushedS1) 0 = 0 \<and>
   tasks (settle testEnv (PipelineTask 0 AwaitWav) (Bytes (Inl (Failure ''ffmpeg''))) flushedS1)
     = [GreetingTask 0 GreetGpt] \<and>
   heardS1 = exec testEnv
     (Message 0 None (Start startS1) # replicate 150 (Message 0 None (Media frameS1)) @
      [Settle (PipelineTask 0 AwaitWav) (Bytes (Inr [3]))]) world0 \<and>
   PipelineTask 0 AwaitTranscription \<in> set (tasks heardS1) \<and> trim ''  '' = [] \<and>
   \<not> isProcessing (heap (settle testEnv (PipelineTask 0 AwaitTranscription)
                          (Text (Inr ''  '')) heardS1) 0) \<and>
   active_runs (settle testEnv (PipelineTask 0 AwaitTranscription)
                  (Text (Inr ''  '')) heardS1) 0 = 0 \<and>
   afterStart = exec testEnv [Message 0 None (Start startS1)] world0 \<and>
   \<not> isProcessing (heap afterStart 0) \<and> trim ''hola'' = ''hola'' \<and>
   isProcessing (heap (processAudioPipeline testEnv 0 [1, 2] afterStart) 0) \<and>
   isProcessing (heap transcribingS1 0) \<and>
   \<not> isProcessing (heap
      (settle testEnv (PipelineTask 0 AwaitMulaw) (Bytes (Inr [9]))
        (settle testEnv (PipelineTask 0 AwaitArrayBuffer) (Bytes (Inr [8]))
          (settle testEnv (PipelineTask 0 AwaitTts) (Http (Inr (True, 200)))
            (settle testEnv (PipelineTask 0 AwaitGpt) (Chat (Inr (Some ''hi'')))
              (settle testEnv (PipelineTask 0 AwaitTranscription) (Text (Inr ''hola''))
                transcribingS1))))) 0)"
proof -
  have r: "flushedS1 = exec testEnv
     (Message 0 None (Start startS1) # replicate 150 (Message 0 None (Media frameS1))) world0"
    by (simp only: flushedS1_def)
  have n: "(0::nat) < nextAddr flushedS1"
    and t: "PipelineTask 0 AwaitWav \<in> set (tasks flushedS1)"
    and ts: "tasks flushedS1 = [GreetingTask 0 GreetGpt, PipelineTask 0 AwaitWav]"
    by (simp_all add: flushedS1_eq afterStart_eq sessionS1_def processAudioPipeline_def
        world_defs Let_def)
  from busy_guard [OF r, where a = 0 and st = AwaitWav and audio = "[1]"
      and r = "rejected AwaitWav (Failure ''ffmpeg'')" and e = "Failure ''ffmpeg''"] n t ts
  have 1: "active_runs flushedS1 0 = 1 \<and> isProcessing (heap flushedS1 0) \<and>
    processAudioPipeline testEnv 0 [1] flushedS1 = called (ProcessAudioPipeline 0 [1]) flushedS1 \<and>
    \<not> isProcessing (heap (settle testEnv (PipelineTask 0 AwaitWav)
                          (Bytes (Inl (Failure ''ffmpeg''))) flushedS1) 0) \<and>
    active_runs (settle testEnv (PipelineTask 0 AwaitWav)
                  (Bytes (Inl (Failure ''ffmpeg''))) flushedS1) 0 = 0 \<and>
    tasks (settle testEnv (PipelineTask 0 AwaitWav) (Bytes (Inl (Failure ''ffmpeg''))) flushedS1)
     = [GreetingTask 0 GreetGpt]"
    by simp
  have h: "heardS1 = exec testEnv
     (Message 0 None (Start startS1) # replicate 150 (Message 0 None (Media frameS1)) @
      [Settle (PipelineTask 0 AwaitWav) (Bytes (Inr [3]))]) world0"
    by (simp only: heardS1_def)
  have th: "PipelineTask 0 AwaitTranscription \<in> set (tasks heardS1)"
    by (simp add: heardS1_eq flushedS1_eq afterStart_eq sessionS1_def run_defs)
  have b: "trim ''  '' = []" by (rule trim_blank)
  from busy_guard [OF h, where a = 0 and st = AwaitTranscription
      and r = "Text (Inr ''  '')" and heard = "''  ''"] th b
  have 2: "\<not> isProcessing (heap (settle testEnv (PipelineTask 0 AwaitTranscription)
                          (Text (Inr ''  '')) heardS1) 0) \<and>
    active_runs (settle testEnv (PipelineTask 0 AwaitTranscription)
                  (Text (Inr ''  '')) heardS1) 0 = 0"
    by simp
  have s: "afterStart = exec testEnv [Message 0 None (Start startS1)] world0"
    by (simp only: afterStart_def)
  have idle: "\<not> isProcessing (heap afterStart 0)" by (simp add: afterStart_eq sessionS1_def)
  have said: "trim ''hola'' = ''hola''" by (simp add: trim_def js_whitespace_def)
  from busy_guard [OF s, where a = 0 and audio = "[1, 2]" and said = "''hola''"
      and wav = "[3]" and content = "Some ''hi''" and code = 200 and speech = "[8]"
      and reply = "[9]"] idle said
  have 3: "isProcessing (heap (processAudioPipeline testEnv 0 [1, 2] afterStart) 0) \<and>
   isProcessing (heap transcribingS1 0) \<and>
   \<not> isProcessing (heap
      (settle testEnv (PipelineTask 0 AwaitMulaw) (Bytes (Inr [9]))
        (settle testEnv (PipelineTask 0 AwaitArrayBuffer) (Bytes (Inr [8]))
          (settle testEnv (PipelineTask 0 AwaitTts) (Http (Inr (True, 200)))
            (settle testEnv (PipelineTask 0 AwaitGpt) (Chat (Inr (Some ''hi'')))
              (settle testEnv (PipelineTask 0 AwaitTranscription) (Text (Inr ''hola''))
                transcribingS1))))) 0)"
    by (simp add: Let_def transcribingS1_def)
  from r n t 1 h th b 2 s idle said 3 show ?thesis by (intro conjI) simp_all
qed

section \<open>C2: the synthesis engine answers with a non-success status\<close>

text \<open>
  C2 (as amended). In a run on an idle session, with no other turn in between, in which
  the transcript is not blank, the conversational engine answers and the synthesis engine
  answers with a non-success status: nothing is sent, the busy flag is clear at the end,
  the failure is logged, and the history has gained the user turn followed by the
  assistant turn of that run (the reply, or the empty string when there is none), which
  was appended before the synthesis request.
\<close>

theorem tts_failure_keeps_both_turns:
  assumes b: "\<not> isProcessing (heap w a)" and e: "trim text \<noteq> []"
  shows "let w' = exec env
                [Settle (PipelineTask a AwaitWav) (Bytes (Inr wavBuffer)),
                 Settle (PipelineTask a AwaitTranscription) (Text (Inr text)),
                 Settle (PipelineTask a AwaitGpt) (Chat (Inr content)),
                 Settle (PipelineTask a AwaitTts) (Http (Inr (False, status))),
                 Settle (PipelineTask a (AwaitErrText status)) (Text body)]
                (processAudioPipeline env a audio w) in
         conversationHistory (heap w' a) = conversationHistory (heap w a) @
           [(User, trim text), (Assistant, case content of Some c \<Rightarrow> c | None \<Rightarrow> [])] \<and>
         sent w' = sent w \<and>
         \<not> isProcessing (heap w' a) \<and>
         logs w' = logs w @
           [WhisperLog (trim text), GptLog (case content of Some c \<Rightarrow> c | None \<Rightarrow> []),
            PipelineErrorLog (case body of Inl err \<Rightarrow> err | Inr errText \<Rightarrow> TtsError status errText)]"
  using b e by (cases body) (simp_all add: run_defs)

theorem tts_failure_keeps_both_turns_witness:
  "\<not> isProcessing (heap afterStart 0) \<and> trim '' hola '' \<noteq> [] \<and>
   (let w' = exec testEnv
          [Settle (PipelineTask 0 AwaitWav) (Bytes (Inr [3])),
           Settle (PipelineTask 0 AwaitTranscription) (Text (Inr '' hola '')),
           Settle (PipelineTask 0 AwaitGpt) (Chat (Inr None)),
           Settle (PipelineTask 0 AwaitTts) (Http (Inr (False, 401))),
           Settle (PipelineTask 0 (AwaitErrText 401)) (Text (Inr ''unauthorized''))]
          (processAudioPipeline testEnv 0 [1, 2] afterStart) in
    conversationHistory (heap w' 0) = [(User, ''hola''), (Assistant, [])] \<and>
    sent w' = [] \<and> \<not> isProcessing (heap w' 0) \<and>
    logs w' = [CallStarted ''C1'', WhisperLog ''hola'', GptLog [],
               PipelineErrorLog (TtsError 401 ''unauthorized'')])"
  using tts_failure_keeps_both_turns [of afterStart 0 "'' hola ''" testEnv "[3]" None 401
      "Inr ''unauthorized''" "[1, 2]"]
  by (simp add: afterStart_eq sessionS1_def trim_hola)

text \<open>
  The claim as stated asks for no assistant turn. In this run the synthesis engine answers
  401 and the history ends with the assistant turn.
\<close>

theorem tts_failure_no_assistant_turn_counterexample:
  "conversationHistory (heap (exec testEnv
      [Settle (PipelineTask 0 AwaitWav) (Bytes (Inr [3])),
       Settle (PipelineTask 0 AwaitTranscription) (Text (Inr '' hola '')),
       Settle (PipelineTask 0 AwaitGpt) (Chat (Inr (Some ''ciao''))),
       Settle (PipelineTask 0 AwaitTts) (Http (Inr (False, 401))),
       Settle (PipelineTask 0 (AwaitErrText 401)) (Text (Inr ''unauthorized''))]
      (processAudioPipeline testEnv 0 [1, 2] afterStart)) 0) =
   [(User, ''hola''), (Assistant, ''ciao'')]"
  by (simp add: afterStart_eq sessionS1_def trim_hola run_defs)

section \<open>C3: 150 frames and a stop, 149 frames and a stop\<close>

text \<open>
  C3. Take a session that is in the registry under its stream identifier with an empty
  buffer, then any sequence of turns on that stream (media events on it, with settled
  awaits of greetings and runs and closing sockets in between), then the stop event of the
  stream. When the sequence holds exactly 150 inbound frames, the pipeline is called
  exactly once; when it holds exactly 149, the pipeline is not called; either way the
  stream has no entry in the registry afterwards. When the 150 inbound frames come one
  after the other on an idle session, that one call receives the concatenation of the 150
  decoded payloads, sets the busy flag and starts the conversion to WAV, the buffer is
  empty, and the run is still in flight after the stop.
\<close>

theorem flush_at_150_frames:
  assumes c: "activeCalls w sid = Some a" and e: "audioBuffer (heap w a) = []"
    and sd: "stop_streamSid sd = sid"
  shows
    "((\<forall>l \<in> set ls. media_turn sid l) \<and> length (filter inbound_frame ls) = 150 \<longrightarrow>
        pipeline_calls (exec env (ls @ [Message sock q (Stop sd)]) w) = pipeline_calls w + 1 \<and>
        activeCalls (exec env (ls @ [Message sock q (Stop sd)]) w) sid = None) \<and>
     ((\<forall>l \<in> set ls. media_turn sid l) \<and> length (filter inbound_frame ls) = 149 \<longrightarrow>
        pipeline_calls (exec env (ls @ [Message sock q (Stop sd)]) w) = pipeline_calls w \<and>
        activeCalls (exec env (ls @ [Message sock q (Stop sd)]) w) sid = None) \<and>
     ((\<forall>md \<in> set mds. media_track md = ''inbound'' \<and> media_streamSid md = sid) \<and>
      length mds = 150 \<and> \<not> isProcessing (heap w a) \<longrightarrow>
        (let audio = concat (map (\<lambda>md. fromBase64 env (media_payload md)) mds);
             w' = exec env (map (\<lambda>md. Message sock q (Media md)) mds @
                            [Message sock q (Stop sd)]) w
         in calls w' = calls w @ [ProcessAudioPipeline a audio] \<and>
            requests w' = requests w @ [MulawToWav audio] \<and>
            tasks w' = tasks w @ [PipelineTask a AwaitWav] \<and>
            isProcessing (heap w' a) \<and> audioBuffer (heap w' a) = [] \<and>
            activeCalls w' sid = None))"
proof -
  have n: "length (audioBuffer (heap w a)) < 150" using e by simp
  have counted: "pipeline_calls (exec env (ls @ [Message sock q (Stop sd)]) w) =
          pipeline_calls w + length (filter inbound_frame ls) div 150 \<and>
        activeCalls (exec env (ls @ [Message sock q (Stop sd)]) w) sid = None"
    if ls: "\<forall>l \<in> set ls. media_turn sid l"
  proof -
    let ?w1 = "exec env ls w"
    from feed_exec [OF c n ls, of env]
    have p: "pipeline_calls ?w1 = pipeline_calls w + length (filter inbound_frame ls) div 150"
      using e by simp
    have s: "exec env (ls @ [Message sock q (Stop sd)]) w = on_stop sd ?w1"
      using media_turns_unhandled [OF ls, of env w]
      by (simp add: exec_append_quiet on_message_def)
    have "pipeline_calls (on_stop sd ?w1) = pipeline_calls ?w1"
      by (simp add: on_stop_def pipeline_calls_def log_def Let_def)
    moreover have "activeCalls (on_stop sd ?w1) sid = None"
      using sd by (simp add: on_stop_def log_def Let_def)
    ultimately show ?thesis unfolding s using p by simp
  qed
  have 1: "(\<forall>l \<in> set ls. media_turn sid l) \<and> length (filter inbound_frame ls) = 150 \<longrightarrow>
        pipeline_calls (exec env (ls @ [Message sock q (Stop sd)]) w) = pipeline_calls w + 1 \<and>
        activeCalls (exec env (ls @ [Message sock q (Stop sd)]) w) sid = None"
    using counted by simp
  have 2: "(\<forall>l \<in> set ls. media_turn sid l) \<and> length (filter inbound_frame ls) = 149 \<longrightarrow>
        pipeline_calls (exec env (ls @ [Message sock q (Stop sd)]) w) = pipeline_calls w \<and>
        activeCalls (exec env (ls @ [Message sock q (Stop sd)]) w) sid = None"
    using counted by simp
  have 3: "(\<forall>md \<in> set mds. media_track md = ''inbound'' \<and> media_streamSid md = sid) \<and>
      length mds = 150 \<and> \<not> isProcessing (heap w a) \<longrightarrow>
        (let audio = concat (map (\<lambda>md. fromBase64 env (media_payload md)) mds);
             w' = exec env (map (\<lambda>md. Message sock q (Media md)) mds @
                            [Message sock q (Stop sd)]) w
         in calls w' = calls w @ [ProcessAudioPipeline a audio] \<and>
            requests w' = requests w @ [MulawToWav audio] \<and>
            tasks w' = tasks w @ [PipelineTask a AwaitWav] \<and>
            isProcessing (heap w' a) \<and> audioBuffer (heap w' a) = [] \<and>
            activeCalls w' sid = None)"
  proof (intro impI, elim conjE)
    assume mds: "\<forall>md \<in> set mds. media_track md = ''inbound'' \<and> media_streamSid md = sid"
      and len: "length mds = 150" and idle: "\<not> isProcessing (heap w a)"
    let ?audio = "concat (map (\<lambda>md. fromBase64 env (media_payload md)) mds)"
    have "exec env (map (\<lambda>md. Message sock q (Media md)) mds @ [Message sock q (Stop sd)]) w =
          on_stop sd (processAudioPipeline env a ?audio w)"
      using feed_150_frames [OF c e mds len, of env sock q]
      by (simp add: exec_append_quiet processAudioPipeline_def world_defs Let_def
          on_message_def)
    then show "let audio = ?audio;
             w' = exec env (map (\<lambda>md. Message sock q (Media md)) mds @
                            [Message sock q (Stop sd)]) w
         in calls w' = calls w @ [ProcessAudioPipeline a audio] \<and>
            requests w' = requests w @ [MulawToWav audio] \<and>
            tasks w' = tasks w @ [PipelineTask a AwaitWav] \<and>
            isProcessing (heap w' a) \<and> audioBuffer (heap w' a) = [] \<and>
            activeCalls w' sid = None"
      using idle e sd by (simp add: on_stop_def processAudioPipeline_def world_defs Let_def)
  qed
  from 1 2 3 show ?thesis by (intro conjI)
qed

theorem flush_at_150_frames_witness:
  "activeCalls afterStart ''S1'' = Some 0 \<and> audioBuffer (heap afterStart 0) = [] \<and>
   \<not> isProcessing (heap afterStart 0) \<and> stop_streamSid stopS1 = ''S1'' \<and>
   pipeline_calls (exec testEnv (replicate 150 (Message 0 None (Media frameS1)) @
                     [Message 0 None (Stop stopS1)]) afterStart) = 1 \<and>
   pipeline_calls (exec testEnv (replicate 149 (Message 0 None (Media frameS1)) @
                     [Message 0 None (Stop stopS1)]) afterStart) = 0 \<and>
   activeCalls (exec testEnv (replicate 149 (Message 0 None (Media frameS1)) @
                     [Message 0 None (Stop stopS1)]) afterStart) ''S1'' = None \<and>
   isProcessing (heap (exec testEnv (replicate 150 (Message 0 None (Media frameS1)) @
                     [Message 0 None (Stop stopS1)]) afterStart) 0)"
proof -
  have c: "activeCalls afterStart ''S1'' = Some 0"
    and e: "audioBuffer (heap afterStart 0) = []"
    and idle: "\<not> isProcessing (heap afterStart 0)"
    and p: "pipeline_calls afterStart = 0"
    by (simp_all add: afterStart_eq sessionS1_def pipeline_calls_def)
  have sd: "stop_streamSid stopS1 = ''S1''" by (simp add: stopS1_def)
  have turns: "\<forall>l \<in> set (replicate n (Message 0 None (Media frameS1))). media_turn ''S1'' l" for n
    by (simp add: frameS1_def)
  have count: "length (filter inbound_frame (replicate n (Message 0 None (Media frameS1)))) = n" for n
    by (simp add: frameS1_def)
  have frames: "\<forall>md \<in> set (replicate 150 frameS1).
      media_track md = ''inbound'' \<and> media_streamSid md = ''S1''"
    by (simp add: frameS1_def)
  note full = flush_at_150_frames [OF c e sd, where ls = "replicate 150 (Message 0 None (Media frameS1))"
      and mds = "replicate 150 frameS1" and env = testEnv and sock = 0 and q = None]
  note short = flush_at_150_frames [OF c e sd, where ls = "replicate 149 (Message 0 None (Media frameS1))"
      and mds = "replicate 150 frameS1" and env = testEnv and sock = 0 and q = None]
  from full turns [of 150] count [of 150] p
  have 1: "pipeline_calls (exec testEnv (replicate 150 (Message 0 None (Media frameS1)) @
                     [Message 0 None (Stop stopS1)]) afterStart) = 1"
    by simp
  from short turns [of 149] count [of 149] p
  have 2: "pipeline_calls (exec testEnv (replicate 149 (Message 0 None (Media frameS1)) @
                     [Message 0 None (Stop stopS1)]) afterStart) = 0"
    and 3: "activeCalls (exec testEnv (replicate 149 (Message 0 None (Media frameS1)) @
                     [Message 0 None (Stop stopS1)]) afterStart) ''S1'' = None"
    by simp_all
  from full frames idle
  have 4: "isProcessing (heap (exec testEnv (replicate 150 (Message 0 None (Media frameS1)) @
                     [Message 0 None (Stop stopS1)]) afterStart) 0)"
    by (simp add: Let_def)
  from c e idle sd 1 2 3 4 show ?thesis by (intro conjI)
qed

section \<open>C4: the inbound buffer\<close>

text \<open>
  C4. Take a state the event loop can reach and a session in its registry. Its buffer
  holds fewer than 150 frames. After any sequence of turns on that stream (media events on
  it, with settled awaits of greetings and runs and closing sockets in between) the
  session is still in the registry and the length of its buffer is the length before plus
  the number of inbound frames of the sequence, modulo 150: the inbound frames since the
  last flush. A media event of another track than inbound leaves the whole state as it is.
  The inbound frame that finds 149 frames in the buffer calls the pipeline with the
  concatenation of the 150 chunks, on a state in which the buffer is already empty.
\<close>

theorem inbound_buffer_counts_frames:
  assumes r: "w = exec env past world0" and c: "activeCalls w sid = Some a"
  shows
    "((\<forall>l \<in> set ls. media_turn sid l) \<longrightarrow>
        activeCalls (exec env ls w) sid = Some a \<and>
        length (audioBuffer (heap (exec env ls w) a)) =
          (length (audioBuffer (heap w a)) + length (filter inbound_frame ls)) mod 150) \<and>
     length (audioBuffer (heap w a)) < 150 \<and>
     (media_track md \<noteq> ''inbound'' \<longrightarrow> on_message env sock q (Media md) w = w) \<and>
     (media_track md = ''inbound'' \<and> media_streamSid md = sid \<and>
      length (audioBuffer (heap w a)) = 149 \<longrightarrow>
        on_message env sock q (Media md) w =
          processAudioPipeline env a
            (concat (audioBuffer (heap w a) @ [fromBase64 env (media_payload md)]))
            (upd a (\<lambda>s. s\<lparr>audioBuffer := []\<rparr>) w) \<and>
        audioBuffer (heap (on_message env sock q (Media md) w) a) = [])"
proof -
  have "bounded_buffers w" unfolding r by (rule bounded_exec [OF bounded_world0])
  then have n: "length (audioBuffer (heap w a)) < 150" by (simp add: bounded_buffers_def)
  have 1: "(\<forall>l \<in> set ls. media_turn sid l) \<longrightarrow>
        activeCalls (exec env ls w) sid = Some a \<and>
        length (audioBuffer (heap (exec env ls w) a)) =
          (length (audioBuffer (heap w a)) + length (filter inbound_frame ls)) mod 150"
    using feed_exec [OF c n, of ls env] by blast
  have 2: "media_track md \<noteq> ''inbound'' \<longrightarrow> on_message env sock q (Media md) w = w"
    by (simp add: on_message_def on_media_def)
  have 3: "media_track md = ''inbound'' \<and> media_streamSid md = sid \<and>
      length (audioBuffer (heap w a)) = 149 \<longrightarrow>
        on_message env sock q (Media md) w =
          processAudioPipeline env a
            (concat (audioBuffer (heap w a) @ [fromBase64 env (media_payload md)]))
            (upd a (\<lambda>s. s\<lparr>audioBuffer := []\<rparr>) w) \<and>
        audioBuffer (heap (on_message env sock q (Media md) w) a) = []"
    using c by (simp add: on_message_def on_media_def processAudioPipeline_def world_defs Let_def)
  from 1 n 2 3 show ?thesis by (intro conjI)
qed

theorem inbound_buffer_counts_frames_witness:
  "afterStart = exec testEnv [Message 0 None (Start startS1)] world0 \<and>
   activeCalls afterStart ''S1'' = Some 0 \<and>
   length (audioBuffer (heap (exec testEnv
      [Message 0 None (Media frameS1), Message 0 None (Media echoS1),
       Settle (GreetingTask 0 GreetGpt) (Chat (Inr None)), Message 0 None (Media frameS1)]
      afterStart) 0)) = 2 \<and>
   on_message testEnv 0 None (Media echoS1) afterStart = afterStart \<and>
   activeCalls bufferedS1 ''S1'' = Some 0 \<and>
   length (audioBuffer (heap bufferedS1 0)) = 149 \<and>
   audioBuffer (heap (on_message testEnv 0 None (Media frameS1) bufferedS1) 0) = []"
proof -
  have r: "afterStart = exec testEnv [Message 0 None (Start startS1)] world0"
    by (simp add: afterStart_def)
  have c: "activeCalls afterStart ''S1'' = Some 0"
    and e: "audioBuffer (heap afterStart 0) = []"
    by (simp_all add: afterStart_eq sessionS1_def)
  have rb: "bufferedS1 = exec testEnv
     (Message 0 None (Start startS1) # replicate 149 (Message 0 None (Media frameS1))) world0"
    by (simp add: bufferedS1_def)
  have cb: "activeCalls bufferedS1 ''S1'' = Some 0"
    and lb: "length (audioBuffer (heap bufferedS1 0)) = 149"
    by (simp_all add: bufferedS1_eq buffered_fields afterStart_eq sessionS1_def)
  note t = inbound_buffer_counts_frames [OF r c, where sock = 0 and q = None
      and md = echoS1 and ls = "[Message 0 None (Media frameS1), Message 0 None (Media echoS1),
       Settle (GreetingTask 0 GreetGpt) (Chat (Inr None)), Message 0 None (Media frameS1)]"]
  note tb = inbound_buffer_counts_frames [OF rb cb, where sock = 0 and q = None
      and md = frameS1 and ls = "[]"]
  from t e have 1: "length (audioBuffer (heap (exec testEnv
      [Message 0 None (Media frameS1), Message 0 None (Media echoS1),
       Settle (GreetingTask 0 GreetGpt) (Chat (Inr None)), Message 0 None (Media frameS1)]
      afterStart) 0)) = 2"
    by (simp add: frameS1_def echoS1_def)
  from t have 2: "on_message testEnv 0 None (Media echoS1) afterStart = afterStart"
    by (simp add: echoS1_def)
  have full: "media_track frameS1 = ''inbound'' \<and> media_streamSid frameS1 = ''S1'' \<and>
      length (audioBuffer (heap bufferedS1 0)) = 149"
    using lb by (simp add: frameS1_def)
  from tb [THEN conjunct2, THEN conjunct2, THEN conjunct2, THEN mp, OF full]
  have 3: "audioBuffer (heap (on_message testEnv 0 None (Media frameS1) bufferedS1) 0) = []"
    by (rule conjunct2)
  from r c 1 2 cb lb 3 show ?thesis by (intro conjI)
qed

section \<open>C5: an empty transcript\<close>

text \<open>
  C5. When the transcription settles with a text that is empty after \<^verbatim>\<open>trim\<close> (empty or
  white space only), the turn that receives it leaves the history of the session, the
  requests made, the messages sent and the log as they were, clears the busy flag and ends
  the run. For a whole run on an idle session, from the call to that turn with nothing in
  between: the history is unchanged, the only requests made are the conversion to WAV and
  the transcription (none to the conversational or synthesis engine), nothing is sent and
  the flag is clear.
\<close>

theorem empty_transcript_exits_quietly:
  assumes e: "trim text = []"
  shows "(PipelineTask a AwaitTranscription \<in> set (tasks w) \<longrightarrow>
           (let w' = settle env (PipelineTask a AwaitTranscription) (Text (Inr text)) w in
            conversationHistory (heap w' a) = conversationHistory (heap w a) \<and>
            requests w' = requests w \<and> sent w' = sent w \<and> logs w' = logs w \<and>
            \<not> isProcessing (heap w' a) \<and>
            tasks w' = remove1 (PipelineTask a AwaitTranscription) (tasks w))) \<and>
         (\<not> isProcessing (heap w a) \<longrightarrow>
           (let w' = exec env
                  [Settle (PipelineTask a AwaitWav) (Bytes (Inr wavBuffer)),
                   Settle (PipelineTask a AwaitTranscription) (Text (Inr text))]
                  (processAudioPipeline env a audio w) in
            conversationHistory (heap w' a) = conversationHistory (heap w a) \<and>
            requests w' = requests w @ [MulawToWav audio, Transcription wavBuffer] \<and>
            sent w' = sent w \<and> logs w' = logs w \<and>
            \<not> isProcessing (heap w' a)))"
  using e by (simp add: run_defs)

theorem empty_transcript_exits_quietly_witness:
  "trim ''  '' = [] \<and> \<not> isProcessing (heap afterStart 0) \<and>
   (let w' = exec testEnv
          [Settle (PipelineTask 0 AwaitWav) (Bytes (Inr [3])),
           Settle (PipelineTask 0 AwaitTranscription) (Text (Inr ''  ''))]
          (processAudioPipeline testEnv 0 [1, 2] afterStart) in
    conversationHistory (heap w' 0) = [] \<and>
    requests w' = [ChatCompletion [(System, defaultPrompt), (User, START_CALL)],
                   MulawToWav [1, 2], Transcription [3]] \<and>
    sent w' = [] \<and> logs w' = [CallStarted ''C1''] \<and> \<not> isProcessing (heap w' 0)) \<and>
   PipelineTask 0 AwaitTranscription \<in> set (tasks transcribingS1) \<and>
   (let w' = settle testEnv (PipelineTask 0 AwaitTranscription) (Text (Inr ''  '')) transcribingS1 in
    conversationHistory (heap w' 0) = [] \<and> requests w' = requests transcribingS1 \<and>
    sent w' = [] \<and> logs w' = [CallStarted ''C1''] \<and> \<not> isProcessing (heap w' 0) \<and>
    tasks w' = [GreetingTask 0 GreetGpt])"
proof -
  have t: "PipelineTask 0 AwaitTranscription \<in> set (tasks transcribingS1)"
    and f: "conversationHistory (heap transcribingS1 0) = []" "sent transcribingS1 = []"
      "logs transcribingS1 = [CallStarted ''C1'']"
      "tasks transcribingS1 = [GreetingTask 0 GreetGpt, PipelineTask 0 AwaitTranscription]"
    by (simp_all add: transcribingS1_def afterStart_eq sessionS1_def run_defs)
  from empty_transcript_exits_quietly [OF trim_blank, of 0 afterStart testEnv "[3]" "[1, 2]"]
  have 1: "let w' = exec testEnv
          [Settle (PipelineTask 0 AwaitWav) (Bytes (Inr [3])),
           Settle (PipelineTask 0 AwaitTranscription) (Text (Inr ''  ''))]
          (processAudioPipeline testEnv 0 [1, 2] afterStart) in
    conversationHistory (heap w' 0) = [] \<and>
    requests w' = [ChatCompletion [(System, defaultPrompt), (User, START_CALL)],
                   MulawToWav [1, 2], Transcription [3]] \<and>
    sent w' = [] \<and> logs w' = [CallStarted ''C1''] \<and> \<not> isProcessing (heap w' 0)"
    by (simp add: afterStart_eq sessionS1_def)
  from empty_transcript_exits_quietly [OF trim_blank, of 0 transcribingS1 testEnv "[3]" "[1, 2]"] t f
  have 2: "let w' = settle testEnv (PipelineTask 0 AwaitTranscription) (Text (Inr ''  '')) transcribingS1 in
    conversationHistory (heap w' 0) = [] \<and> requests w' = requests transcribingS1 \<and>
    sent w' = [] \<and> logs w' = [CallStarted ''C1''] \<and> \<not> isProcessing (heap w' 0) \<and>
    tasks w' = [GreetingTask 0 GreetGpt]"
    by (simp add: Let_def)
  have i: "\<not> isProcessing (heap afterStart 0)" by (simp add: afterStart_eq sessionS1_def)
  from trim_blank i 1 t 2 show ?thesis by (intro conjI)
qed

section \<open>C6: a start event without a campaign\<close>

text \<open>
  C6. When a start event arrives on a connection without a campaign selector (absent or
  empty), or with one and the lookup is rejected or finds no row, the session is created
  at the next fresh address with the default prompt and the default voice, idle, with an
  empty history and buffer, and stored under its stream identifier; \<^verbatim>\<open>sendGreeting\<close> is
  called once, on that session, and its chat request carries the default prompt.
\<close>

theorem start_without_campaign_uses_defaults:
  fixes env sock sd w
  defines "a \<equiv> nextAddr w"
  defines "s0 \<equiv> \<lparr>callSid = start_callSid sd, streamSid = start_streamSid sd, socket = sock,
     campaignPrompt = defaultPrompt, campaignVoiceId = defaultVoiceId env, isProcessing = False,
     conversationHistory = [], audioBuffer = []\<rparr>"
  shows
    "(\<not> truthy q \<longrightarrow>
        (let w' = on_message env sock q (Start sd) w in
           activeCalls w' (start_streamSid sd) = Some a \<and> heap w' a = s0 \<and>
           calls w' = calls w @ [SendGreeting a] \<and>
           requests w' = requests w @
             [ChatCompletion [(System, defaultPrompt), (User, START_CALL)]])) \<and>
     (truthy q \<and> (row = Inl e \<or> row = Inr None) \<longrightarrow>
        (let w' = exec env [Message sock q (Start sd),
                            Settle (StartTask sock sd) (CampaignRow row)] w in
           activeCalls w' (start_streamSid sd) = Some a \<and> heap w' a = s0 \<and>
           calls w' = calls w @ [SendGreeting a] \<and>
           requests w' = requests w @
             [GetCampaignById (the q),
              ChatCompletion [(System, defaultPrompt), (User, START_CALL)]]))"
  by (auto simp: a_def s0_def start_defs)

theorem start_without_campaign_uses_defaults_witness:
  "\<not> truthy None \<and>
   (let w' = on_message testEnv 0 None (Start startS1) world0 in
      activeCalls w' ''S1'' = Some 0 \<and> heap w' 0 = sessionS1 \<and>
      calls w' = [SendGreeting 0] \<and>
      requests w' = [ChatCompletion [(System, defaultPrompt), (User, START_CALL)]]) \<and>
   truthy (Some ''7'') \<and>
   (let w' = exec testEnv [Message 0 (Some ''7'') (Start startS1),
                           Settle (StartTask 0 startS1) (CampaignRow (Inr None))] world0 in
      activeCalls w' ''S1'' = Some 0 \<and> heap w' 0 = sessionS1 \<and>
      calls w' = [SendGreeting 0] \<and>
      requests w' = [GetCampaignById ''7'',
                     ChatCompletion [(System, defaultPrompt), (User, START_CALL)]]) \<and>
   (let w' = exec testEnv [Message 0 (Some ''7'') (Start startS1),
                           Settle (StartTask 0 startS1) (CampaignRow (Inl (Failure ''refused'')))]
                world0 in
      activeCalls w' ''S1'' = Some 0 \<and> heap w' 0 = sessionS1 \<and>
      calls w' = [SendGreeting 0] \<and>
      requests w' = [GetCampaignById ''7'',
                     ChatCompletion [(System, defaultPrompt), (User, START_CALL)]])"
  using start_without_campaign_uses_defaults [where q = None and env = testEnv and sock = 0
      and sd = startS1 and w = world0 and row = "Inr None"]
    start_without_campaign_uses_defaults [where q = "Some ''7''" and env = testEnv and sock = 0
      and sd = startS1 and w = world0 and row = "Inr None"]
    start_without_campaign_uses_defaults [where q = "Some ''7''" and env = testEnv and sock = 0
      and sd = startS1 and w = world0 and row = "Inl (Failure ''refused'')"
      and e = "Failure ''refused''"]
  by (simp add: truthy_def world0_def startS1_def sessionS1_def defaultVoiceId_def testEnv_def)

section \<open>C7: a start event on a stream that has a session\<close>

text \<open>
  C7 (as amended). In a state the event loop can reach, when a start event arrives for a
  stream identifier that has a session in the registry, the new session is allocated at a
  fresh address and replaces the prior entry under that identifier; the prior session
  object is left as it is; and the log gains what any start event logs (the call started,
  and the lookup error when the campaign lookup fails), with no entry for the collision.
\<close>

theorem duplicate_start_replaces_silently:
  assumes r: "w = exec env ls world0"
    and p: "activeCalls w (start_streamSid sd) = Some old"
  shows
    "nextAddr w \<noteq> old \<and>
     (let w' = start_session env sock sd prompt voice w in
        activeCalls w' = (activeCalls w)(start_streamSid sd \<mapsto> nextAddr w) \<and>
        streamSid (heap w' (nextAddr w)) = start_streamSid sd \<and>
        callSid (heap w' (nextAddr w)) = start_callSid sd \<and>
        heap w' old = heap w old \<and> logs w' = logs w) \<and>
     (\<not> truthy q \<longrightarrow>
        (let w' = on_message env sock q (Start sd) w in
           activeCalls w' = (activeCalls w)(start_streamSid sd \<mapsto> nextAddr w) \<and>
           heap w' old = heap w old \<and>
           logs w' = logs w @ [CallStarted (start_callSid sd)])) \<and>
     (truthy q \<longrightarrow>
        (let w' = exec env [Message sock q (Start sd),
                            Settle (StartTask sock sd) (CampaignRow row)] w in
           activeCalls w' = (activeCalls w)(start_streamSid sd \<mapsto> nextAddr w) \<and>
           heap w' old = heap w old \<and>
           logs w' = logs w @ CallStarted (start_callSid sd) #
                       (case row of Inl e \<Rightarrow> [CampaignFetchError e] | Inr c \<Rightarrow> [])))"
proof -
  have "allocated w" using reachable_consistent [of env ls] r by (simp add: consistent_def)
  from allocated_call [OF this p] have lt: "old < nextAddr w" .
  then have ne: "nextAddr w \<noteq> old" "old \<noteq> nextAddr w" by simp_all
  show ?thesis using ne by (cases row) (simp_all add: start_defs)
qed

theorem duplicate_start_replaces_silently_witness:
  "afterStart = exec testEnv [Message 0 None (Start startS1)] world0 \<and>
   activeCalls afterStart (start_streamSid startS1again) = Some 0 \<and> \<not> truthy None \<and>
   (let w' = on_message testEnv 0 None (Start startS1again) afterStart in
      activeCalls w' = [''S1'' \<mapsto> 1] \<and> heap w' 0 = sessionS1 \<and>
      callSid (heap w' 1) = ''C2'' \<and>
      logs w' = [CallStarted ''C1'', CallStarted ''C2'']) \<and>
   truthy (Some ''7'') \<and>
   (let w' = exec testEnv [Message 0 (Some ''7'') (Start startS1again),
                Settle (StartTask 0 startS1again) (CampaignRow (Inl (Failure ''refused'')))]
                afterStart in
      activeCalls w' = [''S1'' \<mapsto> 1] \<and> heap w' 0 = sessionS1 \<and>
      logs w' = [CallStarted ''C1'', CallStarted ''C2'',
                 CampaignFetchError (Failure ''refused'')])"
proof -
  have r: "afterStart = exec testEnv [Message 0 None (Start startS1)] world0"
    by (simp add: afterStart_def)
  have p: "activeCalls afterStart (start_streamSid startS1again) = Some 0"
    by (simp add: afterStart_eq startS1again_def)
  have n: "\<not> truthy None" by (simp add: truthy_def)
  have c: "let w' = on_message testEnv 0 None (Start startS1again) afterStart in
      activeCalls w' = [''S1'' \<mapsto> 1] \<and> heap w' 0 = sessionS1 \<and>
      callSid (heap w' 1) = ''C2'' \<and>
      logs w' = [CallStarted ''C1'', CallStarted ''C2'']"
    using duplicate_start_replaces_silently [OF r p, where sock = 0 and q = None
        and prompt = defaultPrompt and voice = "''voice-1''" and row = "Inr None"]
    by (simp add: afterStart_eq startS1again_def truthy_def start_defs)
  have y: "truthy (Some ''7'')" by (simp add: truthy_def)
  have d: "let w' = exec testEnv [Message 0 (Some ''7'') (Start startS1again),
                Settle (StartTask 0 startS1again) (CampaignRow (Inl (Failure ''refused'')))]
                afterStart in
      activeCalls w' = [''S1'' \<mapsto> 1] \<and> heap w' 0 = sessionS1 \<and>
      logs w' = [CallStarted ''C1'', CallStarted ''C2'',
                 CampaignFetchError (Failure ''refused'')]"
    using duplicate_start_replaces_silently [OF r p, where sock = 0 and q = "Some ''7''"
        and prompt = defaultPrompt and voice = "''voice-1''"
        and row = "Inl (Failure ''refused'')"] y
    by (simp add: afterStart_eq startS1again_def Let_def)
  from r p n c y d show ?thesis by (intro conjI)
qed

text \<open>
  The claim as stated has the collision logged. The log after two start events on one
  stream holds the two call-started entries and nothing else, and the second start event
  logs the same entry when it is the first on its stream.
\<close>

theorem duplicate_start_not_logged_counterexample:
  "logs (exec testEnv [Message 0 None (Start startS1), Message 0 None (Start startS1again)] world0)
     = [CallStarted ''C1'', CallStarted ''C2''] \<and>
   logs (exec testEnv [Message 0 None (Start startS1again)] world0) = [CallStarted ''C2'']"
  by (simp add: startS1_def startS1again_def truthy_def start_defs world0_def)

section \<open>C8: media for an unknown stream, and lookups after a stop\<close>

text \<open>
  What the code does as the claim says. An inbound media event whose stream identifier
  has no entry in the registry is logged and changes nothing else: no session, no task,
  nothing sent, no rejection. In a state the event loop can reach, the stop event of a
  stream that has an entry removes the entry, and after it, whatever turns follow, no
  stream identifier leads to that session again.
\<close>

lemma unknown_stream_logged_and_dropped:
  "media_track md = ''inbound'' \<Longrightarrow> activeCalls w (media_streamSid md) = None \<Longrightarrow>
   on_message env sock q (Media md) w = w\<lparr>logs := logs w @ [UnknownStream (media_streamSid md)]\<rparr>"
  by (simp add: on_message_def on_media_def log_def)

lemma stop_removes_registered_session:
  assumes r: "w = exec env past world0" and p: "activeCalls w (stop_streamSid sd) = Some a"
  shows "activeCalls (on_message env sock q (Stop sd) w) (stop_streamSid sd) = None \<and>
      (\<forall>ls sid. activeCalls (exec env ls (on_message env sock q (Stop sd) w)) sid \<noteq> Some a)"
proof -
  let ?w1 = "on_message env sock q (Stop sd) w"
  have c: "consistent w" unfolding r by (rule inv_exec [OF inv_world0])
  then have al: "allocated w" by (simp add: consistent_def)
  have k: "keyed w" unfolding r
    by (rule keyed_exec [OF inv_world0 keyed_world0])
  have w1: "?w1 = on_stop sd w" by (simp add: on_message_def)
  have c1: "consistent ?w1" unfolding w1 using c by (rule inv_on_stop)
  have gone: "activeCalls ?w1 (stop_streamSid sd) = None"
    by (simp add: w1 on_stop_def log_def Let_def)
  have "unregistered ?w1 a" unfolding unregistered_def
  proof (intro conjI allI)
    show "a < nextAddr ?w1"
      using allocated_call [OF al p] by (simp add: w1 on_stop_def log_def Let_def)
  next
    fix sid show "activeCalls ?w1 sid \<noteq> Some a"
    proof
      assume s: "activeCalls ?w1 sid = Some a"
      then have "sid \<noteq> stop_streamSid sd" using gone by auto
      moreover from s have "activeCalls w sid = Some a"
        by (simp add: w1 on_stop_def log_def Let_def split: if_splits)
      ultimately show False using k p by (auto simp: keyed_def)
    qed
  qed
  then have "\<And>ls. unregistered (exec env ls ?w1) a" using c1 by (simp add: unregistered_exec)
  then show ?thesis using gone by (simp add: unregistered_def)
qed

text \<open>
  Where the code departs from the claim. With a campaign on the connection, the start case
  awaits the campaign lookup (line 792) before it stores the session (line 811), and the
  socket delivers the stop event of the stream while the lookup is pending. The stop case
  then finds nothing to remove; when the lookup settles, the start case stores the session
  and greets it, after the stop. Without a campaign the start case does not suspend, and
  the stop that follows it removes the session.
\<close>

text \<open>
  C8. A connection with the campaign 7 receives the start event of stream S1, then its stop
  event; then the campaign lookup settles (no such campaign); then an inbound frame of S1
  arrives. At the end the registry leads from S1 to the session created after the stop, the
  lookup of the frame has found it and the frame is in its buffer; the log has the start
  and the end of the call and no unknown stream. The same messages on a connection without
  a campaign end with no entry for S1 and the frame logged as of an unknown stream.
\<close>

theorem stop_during_campaign_lookup_keeps_session:
  "(let w = exec testEnv [Message 0 (Some ''7'') (Start startS1),
                          Message 0 (Some ''7'') (Stop stopS1),
                          Settle (StartTask 0 startS1) (CampaignRow (Inr None)),
                          Message 0 (Some ''7'') (Media frameS1)] world0
    in activeCalls w ''S1'' = Some 0 \<and>
       audioBuffer (heap w 0) = [fromBase64 testEnv ''AAAA''] \<and>
       logs w = [CallStarted ''C1'', CallEnded ''C1''] \<and>
       calls w = [SendGreeting 0] \<and> unhandled w = []) \<and>
   (let w = exec testEnv [Message 0 None (Start startS1),
                          Message 0 None (Stop stopS1),
                          Message 0 None (Media frameS1)] world0
    in activeCalls w ''S1'' = None \<and>
       audioBuffer (heap w 0) = [] \<and>
       logs w = [CallStarted ''C1'', CallEnded ''C1'', UnknownStream ''S1''])"
  by (simp add: start_defs on_media_def on_stop_def fatal_def world0_def truthy_def
      startS1_def stopS1_def frameS1_def defaultPrompt_def defaultVoiceId_def testEnv_def)

section \<open>C9: malformed and unknown messages\<close>

text \<open>
  C9 (as amended). Whatever sequence of messages of an unknown event type arrives (parsed
  values whose event names none of the three cases, or is missing): the state after them
  is the state before them, so they are ignored, nothing is mutated and nothing is logged;
  none of them is a fatal turn, and the turns that follow them run as if they had not
  arrived, so the process keeps running.
\<close>

theorem unknown_event_ignored:
  "(\<forall>l \<in> set ls. unknown_event l) \<longrightarrow>
     exec env ls w = w \<and> (\<forall>l \<in> set ls. \<not> fatal env l w) \<and>
     exec env (ls @ rest) w = exec env rest w"
proof
  assume a: "\<forall>l \<in> set ls. unknown_event l"
  have 1: "exec env ls w = w" using a by (rule unknown_event_exec)
  have 2: "\<forall>l \<in> set ls. \<not> fatal env l w" using a by (simp add: unknown_event_not_fatal)
  have 3: "exec env (ls @ rest) w = exec env rest w" using a by (rule unknown_event_exec_append)
  from 1 2 3 show "exec env ls w = w \<and> (\<forall>l \<in> set ls. \<not> fatal env l w) \<and>
     exec env (ls @ rest) w = exec env rest w"
    by (intro conjI)
qed

theorem unknown_event_ignored_witness:
  "exec testEnv [Message 0 None (Other (Some ''connected'')), Message 0 None (Other None)]
     afterStart = afterStart \<and>
   \<not> fatal testEnv (Message 0 None (Other (Some ''connected''))) afterStart \<and>
   exec testEnv [Message 0 None (Other (Some ''connected'')), Message 0 None (Other None),
                 Message 0 None (Stop stopS1)] afterStart
     = exec testEnv [Message 0 None (Stop stopS1)] afterStart"
  using unknown_event_ignored [where ls =
      "[Message 0 None (Other (Some ''connected'')), Message 0 None (Other None)]"
      and env = testEnv and w = afterStart and rest = "[Message 0 None (Stop stopS1)]"]
  by simp

text \<open>
  The claim as stated has these messages logged. Twilio's \<^verbatim>\<open>connected\<close> and \<^verbatim>\<open>mark\<close>
  events, which no case handles, leave the log as it was.
\<close>

theorem unknown_event_not_logged_counterexample:
  "logs (exec testEnv [Message 0 None (Other (Some ''connected'')),
                       Message 0 None (Other (Some ''mark''))] world0) = logs world0"
  by (simp add: on_message_def world0_def fatal_def)

text \<open>
  The amended claim is silent on malformed messages. For the record, what the code does
  with them: line 777 parses outside any \<^verbatim>\<open>try\<close>, unlike the campaign lookup of line 792
  and the bodies of the greeting and of the pipeline, which catch and log. Text that is
  not JSON, \<^verbatim>\<open>null\<close>, and a start, media or stop event without its object reject the
  handler's promise before any effect; the turn is fatal, and whatever turns were to
  follow do not run.
\<close>

lemma malformed_message_is_fatal:
  "exec env (Message sock q Unparseable # ls) w = reject SyntaxError w"
  "exec env (Message sock q JsonNull # ls) w = reject TypeError w"
  "ev = ''start'' \<or> ev = ''media'' \<or> ev = ''stop'' \<Longrightarrow>
     exec env (Message sock q (Other (Some ev)) # ls) w = reject TypeError w"
  by (auto simp: on_message_def)

lemma malformed_message_ends_run:
  "exec testEnv [Message 0 None Unparseable, Message 0 None (Start startS1)] world0 =
     world0\<lparr>unhandled := [SyntaxError]\<rparr>"
  by (simp add: on_message_def reject_def world0_def)

section \<open>C10: failures in the greeting\<close>

text \<open>
  C10. In \<^verbatim>\<open>sendGreeting\<close> the turn that receives the greeting text appends it to the
  history as an assistant turn and only then makes the synthesis request. When that
  request is rejected, or answers with a non-success status, or when everything succeeds
  and the socket is closed at the send, the greeting turn stays in the history, nothing is
  sent, the error (when the send throws one) is logged by the catch block and no rejection
  reaches the caller.
\<close>

theorem greeting_failure_keeps_turn:
  fixes content :: "string option"
  assumes g: "greetingText = (case content of Some c \<Rightarrow> c | None \<Rightarrow> ''Ciao, come posso aiutarti?'')"
  shows
    "(let w' = settle env (GreetingTask a GreetGpt) (Chat (Inr content)) (sendGreeting env a w) in
      conversationHistory (heap w' a) = conversationHistory (heap w a) @ [(Assistant, greetingText)] \<and>
      requests w' = requests w @
        [ChatCompletion [(System, campaignPrompt (heap w a)), (User, START_CALL)],
         TextToSpeech (campaignVoiceId (heap w a)) greetingText] \<and>
      sent w' = sent w) \<and>
     (let w' = exec env
            [Settle (GreetingTask a GreetGpt) (Chat (Inr content)),
             Settle (GreetingTask a GreetTts) (Http (Inl e))]
            (sendGreeting env a w) in
      conversationHistory (heap w' a) = conversationHistory (heap w a) @ [(Assistant, greetingText)] \<and>
      sent w' = sent w \<and> unhandled w' = unhandled w \<and>
      logs w' = logs w @ [GreetingLog greetingText, GreetingErrorLog e]) \<and>
     (let w' = exec env
            [Settle (GreetingTask a GreetGpt) (Chat (Inr content)),
             Settle (GreetingTask a GreetTts) (Http (Inr (False, status))),
             Settle (GreetingTask a (GreetErrText status)) (Text (Inr errText))]
            (sendGreeting env a w) in
      conversationHistory (heap w' a) = conversationHistory (heap w a) @ [(Assistant, greetingText)] \<and>
      sent w' = sent w \<and> unhandled w' = unhandled w \<and>
      logs w' = logs w @ [GreetingLog greetingText,
                          GreetingErrorLog (GreetingTtsError status errText)]) \<and>
     (socket (heap w a) \<in> set (closedSockets w) \<longrightarrow>
       (let w' = exec env
            [Settle (GreetingTask a GreetGpt) (Chat (Inr content)),
             Settle (GreetingTask a GreetTts) (Http (Inr (True, status))),
             Settle (GreetingTask a GreetArrayBuffer) (Bytes (Inr mp3Buffer)),
             Settle (GreetingTask a GreetMulaw) (Bytes (Inr mulawAudio))]
            (sendGreeting env a w) in
      conversationHistory (heap w' a) = conversationHistory (heap w a) @ [(Assistant, greetingText)] \<and>
      sent w' = sent w \<and> unhandled w' = unhandled w \<and>
      logs w' = logs w @ GreetingLog greetingText #
        (if closedSendThrows env then [GreetingErrorLog SocketNotOpen] else [])))"
  using g by (simp add: run_defs)

theorem greeting_failure_keeps_turn_witness:
  "socket (heap closedStart 0) \<in> set (closedSockets closedStart) \<and>
   (let w' = exec testEnv
        [Settle (GreetingTask 0 GreetGpt) (Chat (Inr (Some ''Buongiorno''))),
         Settle (GreetingTask 0 GreetTts) (Http (Inr (True, 200))),
         Settle (GreetingTask 0 GreetArrayBuffer) (Bytes (Inr [7])),
         Settle (GreetingTask 0 GreetMulaw) (Bytes (Inr [8]))]
        (sendGreeting testEnv 0 closedStart) in
    conversationHistory (heap w' 0) = [(Assistant, ''Buongiorno'')] \<and>
    sent w' = [] \<and> unhandled w' = [] \<and>
    logs w' = [CallStarted ''C1'', GreetingLog ''Buongiorno'', GreetingErrorLog SocketNotOpen])"
  using greeting_failure_keeps_turn [of "''Buongiorno''" "Some ''Buongiorno''" testEnv 0
      closedStart "Failure ''x''" 200 "''e''" "[7]" "[8]"]
  by (simp add: closedStart_eq afterStart_eq sessionS1_def testEnv_throws)

end
